theory Spec2Isabelle
  imports Complex_Main "HOL-Library.Word" "HOL-Library.Signed_Division"
begin

unbundle bit_operations_syntax

section \<open>Bytes, strings and errors\<close>

text \<open>
  A Go \<^verbatim>\<open>byte\<close> is an 8-bit word. A Go \<^verbatim>\<open>string\<close> and a \<^verbatim>\<open>[]byte\<close> are both
  sequences of bytes, so both are byte lists; \<open>str\<close> writes a literal. A \<^verbatim>\<open>nil\<close> slice
  and an empty slice are both the empty list.
\<close>

type_synonym byte = "8 word"

text \<open>A \<^verbatim>\<open>rune\<close> is an \<^verbatim>\<open>int32\<close>, a Unicode code point.\<close>

type_synonym rune = "32 word"

definition str :: "string \<Rightarrow> byte list" where
  "str cs = map of_char cs"

text \<open>
  Run-time panics are kept apart from returned errors: a panic is no value of Go's
  \<^verbatim>\<open>error\<close> type, it unwinds the goroutine.
\<close>

datatype panic = IndexOutOfRange | NilDereference

text \<open>
  One constructor for each \<^verbatim>\<open>fmt.Errorf\<close> and \<^verbatim>\<open>errors.New\<close> of the sources, with the
  values the message is formatted from. \<open>OtherError\<close> stands for the errors of the
  collaborators (the transport, a handler).
\<close>

datatype error =
    NoTermination "byte list"
  | ExpectInt32 nat
  | ExpectFloat32 nat
  | ExpectTimeTag nat
  | ReadingAddressPattern error
  | ReadingTypeTag error
  | InvalidTypeTagString "byte list"
  | UnknownTypeTag rune
  | ReadingArgument nat rune error
  | UnexpectedEndOfInput
  | ExpectOpenBracket "byte list"
  | ExpectCharClassEOF
  | ExpectCloseBracket "byte list"
  | InvalidRange byte byte
  | OtherError string
  | Panic panic

section \<open>Library functions the sources call\<close>

text \<open>
  \<^verbatim>\<open>bytes.IndexByte\<close> and \<^verbatim>\<open>strings.IndexByte\<close>: the index of the first instance of
  \<open>c\<close>, or \<open>-1\<close> when there is none.
\<close>

fun IndexByte :: "byte list \<Rightarrow> byte \<Rightarrow> int" where
  "IndexByte [] c = -1"
| "IndexByte (x # xs) c =
     (if x = c then 0
      else (let r = IndexByte xs c in if r < 0 then -1 else r + 1))"

text \<open>\<^verbatim>\<open>binary.BigEndian\<close>: the reads panic on a slice that is too short.\<close>

definition AppendUint32 :: "byte list \<Rightarrow> 32 word \<Rightarrow> byte list" where
  "AppendUint32 b v =
     b @ [ucast (drop_bit 24 v), ucast (drop_bit 16 v), ucast (drop_bit 8 v), ucast v]"

fun Uint32 :: "byte list \<Rightarrow> error + 32 word" where
  "Uint32 (b0 # b1 # b2 # b3 # _) =
     Inr (ucast b3 OR push_bit 8 (ucast b2) OR push_bit 16 (ucast b1)
          OR push_bit 24 (ucast b0))"
| "Uint32 _ = Inl (Panic IndexOutOfRange)"

definition AppendUint64 :: "byte list \<Rightarrow> 64 word \<Rightarrow> byte list" where
  "AppendUint64 b v =
     b @ [ucast (drop_bit 56 v), ucast (drop_bit 48 v), ucast (drop_bit 40 v),
          ucast (drop_bit 32 v), ucast (drop_bit 24 v), ucast (drop_bit 16 v),
          ucast (drop_bit 8 v), ucast v]"

fun Uint64 :: "byte list \<Rightarrow> error + 64 word" where
  "Uint64 (b0 # b1 # b2 # b3 # b4 # b5 # b6 # b7 # _) =
     Inr (ucast b7 OR push_bit 8 (ucast b6) OR push_bit 16 (ucast b5)
          OR push_bit 24 (ucast b4) OR push_bit 32 (ucast b3) OR push_bit 40 (ucast b2)
          OR push_bit 48 (ucast b1) OR push_bit 56 (ucast b0))"
| "Uint64 _ = Inl (Panic IndexOutOfRange)"

subsection \<open>UTF-8\<close>

text \<open>
  Ranging over a string and converting a slice of runes to a string go through UTF-8, as
  \<^verbatim>\<open>unicode/utf8\<close> and the run-time system implement it. \<open>first\<close> joins the tables
  \<^verbatim>\<open>first\<close> and \<^verbatim>\<open>acceptRanges\<close>: for the leading byte of a sequence of several
  bytes, the size of the sequence and the least and greatest second byte it accepts;
  \<open>None\<close> for a byte that leads no such sequence.
\<close>

definition RuneError :: rune where
  "RuneError = 0xFFFD"

definition first :: "byte \<Rightarrow> (nat \<times> byte \<times> byte) option" where
  "first s0 =
     (if 0xC2 \<le> s0 \<and> s0 \<le> 0xDF then Some (2, 0x80, 0xBF)
      else if s0 = 0xE0 then Some (3, 0xA0, 0xBF)
      else if 0xE1 \<le> s0 \<and> s0 \<le> 0xEC then Some (3, 0x80, 0xBF)
      else if s0 = 0xED then Some (3, 0x80, 0x9F)
      else if 0xEE \<le> s0 \<and> s0 \<le> 0xEF then Some (3, 0x80, 0xBF)
      else if s0 = 0xF0 then Some (4, 0x90, 0xBF)
      else if 0xF1 \<le> s0 \<and> s0 \<le> 0xF3 then Some (4, 0x80, 0xBF)
      else if s0 = 0xF4 then Some (4, 0x80, 0x8F)
      else None)"

text \<open>
  \<^verbatim>\<open>utf8.DecodeRuneInString\<close>: the first code point of \<open>s\<close> and its width in bytes.
  A byte that starts no valid sequence is the code point \<^verbatim>\<open>RuneError\<close> of width 1.
\<close>

definition DecodeRuneInString :: "byte list \<Rightarrow> rune \<times> nat" where
  "DecodeRuneInString s =
     (case s of
        [] \<Rightarrow> (RuneError, 0)
      | s0 # _ \<Rightarrow>
          (if s0 < 0x80 then (ucast s0, 1)
           else (case first s0 of
                   None \<Rightarrow> (RuneError, 1)
                 | Some (sz, lo, hi) \<Rightarrow>
                     (if length s < sz then (RuneError, 1)
                      else (let s1 = s ! 1
                            in if s1 < lo \<or> hi < s1 then (RuneError, 1)
                               else if sz \<le> 2
                               then (push_bit 6 (ucast (s0 AND 0x1F)) OR ucast (s1 AND 0x3F), 2)
                               else (let s2 = s ! 2
                                     in if s2 < 0x80 \<or> 0xBF < s2 then (RuneError, 1)
                                        else if sz \<le> 3
                                        then (push_bit 12 (ucast (s0 AND 0x0F))
                                              OR push_bit 6 (ucast (s1 AND 0x3F))
                                              OR ucast (s2 AND 0x3F), 3)
                                        else (let s3 = s ! 3
                                              in if s3 < 0x80 \<or> 0xBF < s3 then (RuneError, 1)
                                                 else (push_bit 18 (ucast (s0 AND 0x07))
                                                       OR push_bit 12 (ucast (s1 AND 0x3F))
                                                       OR push_bit 6 (ucast (s2 AND 0x3F))
                                                       OR ucast (s3 AND 0x3F), 4))))))))"

text \<open>
  The bytes of one rune in the conversion \<^verbatim>\<open>string([]rune)\<close>; the comparisons are on
  \<^verbatim>\<open>uint32(r)\<close>. A surrogate or a value above \<open>0x10FFFF\<close> is written as
  \<^verbatim>\<open>RuneError\<close>.
\<close>

definition encoderune :: "rune \<Rightarrow> byte list" where
  "encoderune r =
     (if r \<le> 0x7F then [ucast r]
      else if r \<le> 0x7FF
      then [0xC0 OR ucast (drop_bit 6 r), 0x80 OR (ucast r AND 0x3F)]
      else if 0x10FFFF < r \<or> (0xD800 \<le> r \<and> r \<le> 0xDFFF) \<or> r \<le> 0xFFFF
      then (let r = (if 0x10FFFF < r \<or> (0xD800 \<le> r \<and> r \<le> 0xDFFF) then RuneError else r)
            in [0xE0 OR ucast (drop_bit 12 r), 0x80 OR (ucast (drop_bit 6 r) AND 0x3F),
                0x80 OR (ucast r AND 0x3F)])
      else [0xF0 OR ucast (drop_bit 18 r), 0x80 OR (ucast (drop_bit 12 r) AND 0x3F),
            0x80 OR (ucast (drop_bit 6 r) AND 0x3F), 0x80 OR (ucast r AND 0x3F)])"

definition slicerunetostring :: "rune list \<Rightarrow> byte list" where
  "slicerunetostring rs = concat (map encoderune rs)"

subsection \<open>float64\<close>

text \<open>
  A finite \<^verbatim>\<open>float64\<close> is the rational it denotes. Every IEEE 754 operation is the
  exact operation followed by \<open>f64\<close>, rounding to the nearest value with a 53-bit
  significand, ties to the even significand, subnormals below \<open>2^-1022\<close>. The values of
  this program stay below \<open>2^63\<close> in magnitude, so no operation overflows to an infinity and
  none yields a NaN.
\<close>

function bitlen :: "int \<Rightarrow> int" where
  "bitlen n = (if n \<le> 0 then 0 else 1 + bitlen (n div 2))"
  by pat_completeness auto
termination
  by (relation "measure nat") auto

declare bitlen.simps [simp del]

text \<open>For \<open>x > 0\<close>, the exponent \<open>e\<close> with \<open>2^e \<le> x < 2^(e+1)\<close>.\<close>

definition ilog2 :: "rat \<Rightarrow> int" where
  "ilog2 x =
     (let (p, q) = quotient_of x; k = bitlen p - bitlen q
      in if 2 powi k \<le> x then k else k - 1)"

definition round_half_even :: "rat \<Rightarrow> int" where
  "round_half_even q =
     (let f = \<lfloor>q\<rfloor>; r = q - of_int f
      in if r < 1 / 2 then f else if 1 / 2 < r then f + 1
         else if even f then f else f + 1)"

definition f64 :: "rat \<Rightarrow> rat" where
  "f64 x =
     (if x = 0 then 0
      else (let e = max (ilog2 \<bar>x\<bar>) (- 1022); u = 2 powi (e - 52)
            in sgn x * of_int (round_half_even (\<bar>x\<bar> / u)) * u))"

text \<open>Conversion of a \<^verbatim>\<open>float64\<close> to an integer type truncates towards zero.\<close>

definition trunc :: "rat \<Rightarrow> int" where
  "trunc x = (if 0 \<le> x then \<lfloor>x\<rfloor> else - \<lfloor>- x\<rfloor>)"

subsection \<open>time\<close>

text \<open>
  A \<^verbatim>\<open>time.Time\<close> is the instant it denotes, in nanoseconds since
  1900-01-01T00:00:00 UTC, the \<^verbatim>\<open>epoch\<close> of the source; the location and the monotonic
  clock reading are left out. A \<^verbatim>\<open>time.Duration\<close> is an \<^verbatim>\<open>int64\<close> of nanoseconds:
  \<^verbatim>\<open>Time.Sub\<close> saturates, and \<^verbatim>\<open>Duration.Seconds\<close> divides truncating.
\<close>

definition epoch :: int where
  "epoch = 0"

definition zero_Time :: int where
  \<comment> \<open>\<^verbatim>\<open>time.Time{}\<close>: January 1, year 1, 693595 days before the epoch\<close>
  "zero_Time = - (693595 * 86400 * 1000000000)"

definition Second :: int where
  "Second = 1000000000"

definition Time_Sub :: "int \<Rightarrow> int \<Rightarrow> int" where
  "Time_Sub t u = max (- (2 ^ 63)) (min (2 ^ 63 - 1) (t - u))"

definition Duration_Seconds :: "int \<Rightarrow> rat" where
  "Duration_Seconds d =
     (let sec = d sdiv Second; nsec = d smod Second
      in f64 (f64 (of_int sec) + f64 (f64 (of_int nsec) / 1000000000)))"

definition Time_Add :: "int \<Rightarrow> int \<Rightarrow> int" where
  "Time_Add t d = t + d"

section \<open>Arguments\<close>

text \<open>
  The \<^verbatim>\<open>Argument\<close> interface with its eight implementations. An \<^verbatim>\<open>Int32\<close> is its
  two's complement word, a \<^verbatim>\<open>Float32\<close> its IEEE 754 bit pattern
  (\<^verbatim>\<open>math.Float32bits\<close> and \<^verbatim>\<open>math.Float32frombits\<close> are the identity on it, NaN
  payloads included), a \<^verbatim>\<open>TimeTag\<close> the instant of its \<^verbatim>\<open>time.Time\<close>.
\<close>

datatype argument =
    Int32 "32 word"
  | Float32 "32 word"
  | String "byte list"
  | TimeTag int
  | TrueArg
  | FalseArg
  | Null
  | Impulse

fun TypeTag :: "argument \<Rightarrow> rune" where
  "TypeTag (Int32 _) = of_char CHR ''i''"
| "TypeTag (Float32 _) = of_char CHR ''f''"
| "TypeTag (String _) = of_char CHR ''s''"
| "TypeTag (TimeTag _) = of_char CHR ''t''"
| "TypeTag TrueArg = of_char CHR ''T''"
| "TypeTag FalseArg = of_char CHR ''F''"
| "TypeTag Null = of_char CHR ''N''"
| "TypeTag Impulse = of_char CHR ''I''"

subsection \<open>String\<close>

text \<open>The padding loop \<^verbatim>\<open>for len(b)%4 > 0 { b = append(b, 0) }\<close>.\<close>

function pad4 :: "byte list \<Rightarrow> byte list" where
  "pad4 b = (if 0 < length b mod 4 then pad4 (b @ [0]) else b)"
  by pat_completeness auto
termination
proof (relation "measure (\<lambda>b. (4 - length b mod 4) mod 4)")
  show "wf (measure (\<lambda>b::byte list. (4 - length b mod 4) mod 4))"
    by (rule wf_measure)
next
  fix b :: "byte list"
  assume a: "0 < length b mod 4"
  define r where "r = length b mod 4"
  have r4: "r < 4" by (simp add: r_def)
  have r0: "0 < r" using a by (simp add: r_def)
  have s: "Suc (length b) mod 4 = (if Suc r = 4 then 0 else Suc r)"
    unfolding r_def by (rule mod_Suc)
  from r4 r0 consider "r = 1" | "r = 2" | "r = 3" by linarith
  then have "(4 - Suc (length b) mod 4) mod 4 < (4 - r) mod 4"
    by cases (simp_all add: s)
  then show "(b @ [0], b) \<in> measure (\<lambda>b. (4 - length b mod 4) mod 4)"
    by (simp add: r_def)
qed

declare pad4.simps [simp del]

text \<open>
  The loop \<^verbatim>\<open>for i := range s { b = append(b, s[i]) }\<close>. Ranging over a string, the
  index goes from the first byte of one code point to the first byte of the next, so of a
  sequence of several bytes only the first is appended. \<open>s\<close> is what is left of the
  string from the index on.
\<close>

function append_range :: "byte list \<Rightarrow> byte list \<Rightarrow> byte list" where
  "append_range s b =
     (if s = [] then b
      else append_range (drop (snd (DecodeRuneInString s)) s) (b @ [hd s]))"
  by pat_completeness auto
termination
proof (relation "measure (\<lambda>(s, b). length s)")
  show "wf (measure (\<lambda>(s :: byte list, b :: byte list). length s))"
    by (rule wf_measure)
next
  fix s b :: "byte list"
  assume "s \<noteq> []"
  then obtain s0 r where s: "s = s0 # r"
    by (cases s) simp_all
  have "0 < snd (DecodeRuneInString (s0 # r))"
    by (simp add: DecodeRuneInString_def Let_def split: option.splits prod.splits)
  then show "((drop (snd (DecodeRuneInString s)) s, b @ [hd s]), s, b)
      \<in> measure (\<lambda>(s, b). length s)"
    by (simp add: s)
qed

declare append_range.simps [simp del]

definition String_Append :: "byte list \<Rightarrow> byte list \<Rightarrow> byte list" where
  "String_Append s b = pad4 (append_range s b @ [0])"

definition String_Consume :: "byte list \<Rightarrow> error + (byte list \<times> byte list)" where
  "String_Consume b =
     (let e = IndexByte b 0
      in if e < 0 then Inl (NoTermination b)
         else (let s = take (nat e) b;
                   e' = min (e + 4 - e mod 4) (int (length b))
               in Inr (s, drop (nat e') b)))"

subsection \<open>TimeTag\<close>

definition TimeTag_Append :: "int \<Rightarrow> byte list \<Rightarrow> byte list" where
  "TimeTag_Append t b =
     (let seconds = Duration_Seconds (Time_Sub t epoch)
      in if seconds \<le> 0 then b @ [0, 0, 0, 0, 0, 0, 0, 0]
         else (let stepsPerSecond = f64 (of_int (2 ^ 32));
                   base = of_int (trunc seconds);
                   frac = seconds - base;
                   out = push_bit 32 (word_of_int (trunc base) :: 64 word)
                         + word_of_int (trunc (f64 (frac * stepsPerSecond)))
               in AppendUint64 b out))"

definition TimeTag_Consume :: "byte list \<Rightarrow> error + (int \<times> byte list)" where
  "TimeTag_Consume b =
     (if length b < 8 then Inl (ExpectTimeTag (length b))
      else (case Uint64 b of
              Inl err \<Rightarrow> Inl err
            | Inr raw \<Rightarrow>
                (let seconds = f64 (of_int (uint (drop_bit 32 raw)));
                     seconds = f64 (seconds
                                + f64 (f64 (of_int (uint (raw AND 0xffffffff)))
                                       / f64 (of_int (2 ^ 32))))
                 in Inr (Time_Add epoch (trunc (f64 (seconds * f64 (of_int Second)))),
                         drop 8 b))))"

subsection \<open>The interface methods\<close>

fun Append :: "argument \<Rightarrow> byte list \<Rightarrow> byte list" where
  "Append (Int32 i) b = AppendUint32 b i"
| "Append (Float32 f) b = AppendUint32 b f"
| "Append (String s) b = String_Append s b"
| "Append (TimeTag t) b = TimeTag_Append t b"
| "Append TrueArg b = b"
| "Append FalseArg b = b"
| "Append Null b = b"
| "Append Impulse b = b"

text \<open>
  \<^verbatim>\<open>Consume\<close> overwrites its receiver: the model returns the new value with the
  remainder. The four markers have no state and return themselves.
\<close>

fun Consume :: "argument \<Rightarrow> byte list \<Rightarrow> error + (argument \<times> byte list)" where
  "Consume (Int32 _) b =
     (if length b < 4 then Inl (ExpectInt32 (length b))
      else (case Uint32 b of Inl err \<Rightarrow> Inl err | Inr u \<Rightarrow> Inr (Int32 u, drop 4 b)))"
| "Consume (Float32 _) b =
     (if length b < 4 then Inl (ExpectFloat32 (length b))
      else (case Uint32 b of Inl err \<Rightarrow> Inl err | Inr u \<Rightarrow> Inr (Float32 u, drop 4 b)))"
| "Consume (String _) b =
     (case String_Consume b of Inl err \<Rightarrow> Inl err | Inr (s, r) \<Rightarrow> Inr (String s, r))"
| "Consume (TimeTag _) b =
     (case TimeTag_Consume b of Inl err \<Rightarrow> Inl err | Inr (t, r) \<Rightarrow> Inr (TimeTag t, r))"
| "Consume TrueArg b = Inr (TrueArg, b)"
| "Consume FalseArg b = Inr (FalseArg, b)"
| "Consume Null b = Inr (Null, b)"
| "Consume Impulse b = Inr (Impulse, b)"

subsection \<open>What the wire format carries\<close>

text \<open>
  The terms the round-trip properties are stated in. A string is \<open>ascii\<close> when each of
  its bytes is below \<open>0x80\<close>. A time is \<open>whole_seconds\<close> when it is a whole number of
  seconds, less than \<open>2^32\<close> of them, after the epoch. An argument is \<open>wire_exact\<close>
  when it is no \<^verbatim>\<open>String\<close> with a NUL byte or a byte outside ASCII and no
  \<^verbatim>\<open>TimeTag\<close> other than of whole seconds; it is \<open>wire_stable\<close> when it is that or a
  \<^verbatim>\<open>TimeTag\<close> at or before the epoch. \<open>redecoded a\<close> is what \<^verbatim>\<open>Consume\<close> makes
  of the encoding of \<open>a\<close>.
\<close>

definition ascii :: "byte list \<Rightarrow> bool" where
  "ascii s = list_all (\<lambda>c. c < 0x80) s"

definition whole_seconds :: "int \<Rightarrow> bool" where
  "whole_seconds t = (0 \<le> t \<and> t < 2 ^ 32 * Second \<and> t mod Second = 0)"

fun wire_exact :: "argument \<Rightarrow> bool" where
  "wire_exact (String s) = (0 \<notin> set s \<and> ascii s)"
| "wire_exact (TimeTag t) = whole_seconds t"
| "wire_exact _ = True"

fun wire_stable :: "argument \<Rightarrow> bool" where
  "wire_stable (String s) = (0 \<notin> set s \<and> ascii s)"
| "wire_stable (TimeTag t) = (t \<le> 0 \<or> whole_seconds t)"
| "wire_stable _ = True"

fun framed :: "argument \<Rightarrow> bool" where
  "framed (String s) = (0 \<notin> set s \<and> ascii s)"
| "framed _ = True"

definition redecoded :: "argument \<Rightarrow> argument" where
  "redecoded a = (case Consume a (Append a []) of Inl err \<Rightarrow> a | Inr (a', r) \<Rightarrow> a')"

section \<open>Messages\<close>

record Message =
  Pattern :: "byte list"
  Arguments :: "argument list"

text \<open>
  The registry \<^verbatim>\<open>newByTypeTag\<close>: each entry builds a fresh zero value of its type.
\<close>

definition newByTypeTag :: "rune \<rightharpoonup> argument" where
  "newByTypeTag =
     Map.empty(TypeTag (Int32 0) \<mapsto> Int32 0,
               TypeTag (Float32 0) \<mapsto> Float32 0,
               TypeTag (String []) \<mapsto> String [],
               TypeTag (TimeTag zero_Time) \<mapsto> TimeTag zero_Time,
               TypeTag TrueArg \<mapsto> TrueArg,
               TypeTag FalseArg \<mapsto> FalseArg,
               TypeTag Null \<mapsto> Null,
               TypeTag Impulse \<mapsto> Impulse)"

text \<open>
  The loop \<^verbatim>\<open>for i, t := range tt[1:]\<close> of \<^verbatim>\<open>ParseMessage\<close>, over the code points
  of the string: \<open>tt\<close> is what is left of it from the index \<open>i\<close> on, \<open>t\<close> the code point
  there and \<open>w\<close> its width. The loop stores the argument at \<^verbatim>\<open>args[i]\<close>; every
  registered tag is one byte wide, so whenever the loop completes \<open>i\<close> has counted the
  arguments and the slice is the list of them in order.
\<close>

function parseArguments :: "nat \<Rightarrow> byte list \<Rightarrow> byte list \<Rightarrow> error + argument list" where
  "parseArguments i tt buf =
     (if tt = [] then Inr []
      else (let t = fst (DecodeRuneInString tt); w = snd (DecodeRuneInString tt)
            in case newByTypeTag t of
                 None \<Rightarrow> Inl (UnknownTypeTag t)
               | Some a \<Rightarrow>
                   (case Consume a buf of
                      Inl err \<Rightarrow> Inl (ReadingArgument i t err)
                    | Inr (a', buf') \<Rightarrow>
                        (case parseArguments (i + w) (drop w tt) buf' of
                           Inl err \<Rightarrow> Inl err
                         | Inr args \<Rightarrow> Inr (a' # args)))))"
  by pat_completeness auto
termination
proof (relation "measure (\<lambda>(i, tt, buf). length tt)")
  show "wf (measure (\<lambda>(i :: nat, tt :: byte list, buf :: byte list). length tt))"
    by (rule wf_measure)
next
  fix i :: nat and tt buf buf' :: "byte list" and t w
  assume "tt \<noteq> []" and w: "w = snd (DecodeRuneInString tt)"
  then obtain s0 r where s: "tt = s0 # r"
    by (cases tt) simp_all
  have "0 < snd (DecodeRuneInString (s0 # r))"
    by (simp add: DecodeRuneInString_def Let_def split: option.splits prod.splits)
  then show "((i + w, drop w tt, buf'), i, tt, buf) \<in> measure (\<lambda>(i, tt, buf). length tt)"
    by (simp add: s w)
qed

declare parseArguments.simps [simp del]

definition ParseMessage :: "byte list \<Rightarrow> error + Message" where
  "ParseMessage buf =
     (case String_Consume buf of
        Inl err \<Rightarrow> Inl (ReadingAddressPattern err)
      | Inr (addr, buf) \<Rightarrow>
          (case String_Consume buf of
             Inl err \<Rightarrow> Inl (ReadingTypeTag err)
           | Inr (tt, buf) \<Rightarrow>
               (if length tt = 0 \<or> hd tt \<noteq> of_char CHR '','' then Inl (InvalidTypeTagString tt)
                else (case parseArguments 0 (tl tt) buf of
                        Inl err \<Rightarrow> Inl err
                      | Inr args \<Rightarrow> Inr \<lparr>Pattern = addr, Arguments = args\<rparr>))))"

definition Message_Append :: "Message \<Rightarrow> byte list \<Rightarrow> byte list" where
  "Message_Append m b =
     (let b = String_Append (Pattern m) b;
          typeTag = foldl (\<lambda>typeTag a. typeTag @ [TypeTag a]) [of_char CHR '',''] (Arguments m);
          tt = slicerunetostring typeTag;
          b = String_Append tt b
      in foldl (\<lambda>b a. Append a b) b (Arguments m))"

section \<open>Patterns\<close>

type_synonym matchResult = byte

definition noMatch :: matchResult where
  "noMatch = 0"

definition matchAdvanceBoth :: matchResult where
  "matchAdvanceBoth = push_bit 1 1"

definition matchAdvanceMatcher :: matchResult where
  "matchAdvanceMatcher = push_bit 2 1"

definition matchAdvanceInput :: matchResult where
  "matchAdvanceInput = push_bit 3 1"

text \<open>The array \<^verbatim>\<open>[256]bool\<close> is a total function of its index, a byte.\<close>

record charClass =
  chars :: "byte \<Rightarrow> bool"
  invert :: bool

text \<open>The implementations of the \<^verbatim>\<open>matcher\<close> interface; a \<open>Wildcard\<close> holds \<^verbatim>\<open>single\<close>.\<close>

datatype matcher =
    CharMatcher byte
  | Wildcard bool
  | CharClass charClass

fun matcher_match :: "matcher \<Rightarrow> byte \<Rightarrow> matchResult" where
  "matcher_match (CharMatcher c) b = (if c = b then matchAdvanceBoth else noMatch)"
| "matcher_match (Wildcard single) b =
     (if single then matchAdvanceBoth
      else matchAdvanceBoth OR matchAdvanceMatcher OR matchAdvanceInput)"
| "matcher_match (CharClass cc) b =
     (if chars cc b \<noteq> invert cc then matchAdvanceBoth else noMatch)"

record Pattern =
  matchers :: "matcher list"

datatype matchState = matchState "matcher list" "byte list"

text \<open>
  The loop of \<^verbatim>\<open>matchState.match\<close> for the exhausted input: every remaining matcher
  has to be a wildcard that is not single.
\<close>

fun remaining_match_nothing :: "matcher list \<Rightarrow> bool" where
  "remaining_match_nothing [] = True"
| "remaining_match_nothing (Wildcard single # ms) =
     (if single then False else remaining_match_nothing ms)"
| "remaining_match_nothing (_ # ms) = False"

fun matchState_match :: "matchState \<Rightarrow> matchState list \<times> bool" where
  "matchState_match (matchState ms []) = ([], remaining_match_nothing ms)"
| "matchState_match (matchState [] (b # bs)) = ([], False)"
| "matchState_match (matchState (m # ms) (b # bs)) =
     (let results = matcher_match m b
      in if results = noMatch then ([], False)
         else (let next = [];
                   next = (if results AND matchAdvanceBoth \<noteq> 0
                           then next @ [matchState ms bs] else next);
                   next = (if results AND matchAdvanceMatcher \<noteq> 0
                           then next @ [matchState ms (b # bs)] else next);
                   next = (if results AND matchAdvanceInput \<noteq> 0
                           then next @ [matchState (m # ms) bs] else next)
               in (next, False)))"

text \<open>The stack loop of \<^verbatim>\<open>Pattern.Match\<close>: the top of the stack is the last element.\<close>

fun weight :: "matchState \<Rightarrow> nat" where
  "weight (matchState ms bs) = 4 ^ (length ms + length bs)"

function Match_loop :: "matchState list \<Rightarrow> bool" where
  "Match_loop states =
     (if 0 < length states
      then (let l = length states - 1;
                s = states ! l;
                states = take l states;
                (next, accept) = matchState_match s
            in if accept then True else Match_loop (states @ next))
      else False)"
  by pat_completeness auto
termination
proof (relation "measure (\<lambda>states. sum_list (map weight states))")
  show "wf (measure (\<lambda>states. sum_list (map weight states)))"
    by (rule wf_measure)
next
  fix states :: "matchState list" and l s states' p "next" accept
  assume pos: "0 < length states"
    and l: "l = length states - 1"
    and s: "s = states ! l"
    and st: "states' = take l states"
    and p: "p = matchState_match s"
    and na: "(next, accept) = p"
    and acc: "\<not> accept"
  have step: "sum_list (map weight (fst (matchState_match x))) < weight x" for x
  proof (cases x)
    case (matchState ms bs)
    show ?thesis
    proof (cases bs)
      case Nil
      with matchState show ?thesis by simp
    next
      case (Cons b bs')
      show ?thesis
      proof (cases ms)
        case Nil
        with matchState Cons show ?thesis by simp
      next
        case (Cons m ms')
        with matchState \<open>bs = b # bs'\<close> show ?thesis
          by (simp add: Let_def)
      qed
    qed
  qed
  have split: "states = states' @ [s]"
    using pos l s st
    by (metis One_nat_def append_butlast_last_id butlast_conv_take last_conv_nth
        length_greater_0_conv)
  have "next = fst (matchState_match s)"
    using p na by (metis fst_conv)
  then have "sum_list (map weight next) < weight s"
    using step [of s] by simp
  then have "sum_list (map weight (states' @ next)) < sum_list (map weight states)"
    by (simp add: split)
  then show "(states' @ next, states) \<in> measure (\<lambda>states. sum_list (map weight states))"
    by simp
qed

declare Match_loop.simps [simp del]

definition Pattern_Match :: "Pattern \<Rightarrow> byte list \<Rightarrow> bool" where
  "Pattern_Match p s = Match_loop [matchState (matchers p) s]"

subsection \<open>Compiling a pattern\<close>

text \<open>\<^verbatim>\<open>strings.CutPrefix\<close>.\<close>

definition CutPrefix :: "byte list \<Rightarrow> byte list \<Rightarrow> byte list \<times> bool" where
  "CutPrefix s prefix =
     (if take (length prefix) s = prefix then (drop (length prefix) s, True) else (s, False))"

text \<open>The loop \<^verbatim>\<open>for d := s[i-1]; d < next; d++ { cc.chars[d] = true }\<close>.\<close>

function set_range :: "byte \<Rightarrow> byte \<Rightarrow> (byte \<Rightarrow> bool) \<Rightarrow> (byte \<Rightarrow> bool)" where
  "set_range d next cs = (if d < next then set_range (d + 1) next (cs(d := True)) else cs)"
  by pat_completeness auto
termination
proof (relation "measure (\<lambda>(d, next, cs). unat next - unat d)")
  show "wf (measure (\<lambda>(d :: byte, next :: byte, cs :: byte \<Rightarrow> bool). unat next - unat d))"
    by (rule wf_measure)
next
  fix d "next" :: byte and cs :: "byte \<Rightarrow> bool"
  assume lt: "d < next"
  have a: "unat d < unat next"
    using lt by (simp add: word_less_nat_alt)
  have b: "unat next < 2 ^ LENGTH(8)"
    by (rule unsigned_less)
  have "unat d + unat (1 :: byte) < 2 ^ LENGTH(8)"
    using a b by simp
  then have "unat (d + 1) = unat d + unat (1 :: byte)"
    by (rule unat_add_lem [THEN iffD1])
  then have "unat (d + 1) = Suc (unat d)"
    by simp
  with a show "((d + 1, next, cs(d := True)), d, next, cs)
      \<in> measure (\<lambda>(d, next, cs). unat next - unat d)"
    by simp
qed

declare set_range.simps [simp del]

text \<open>
  The loop \<^verbatim>\<open>for i := 0; i < end; i++\<close> of \<^verbatim>\<open>parseCharClass\<close>, with \<open>e\<close> for
  \<^verbatim>\<open>end\<close>. The two nested conditions that lead to the range are one conjunction; every
  other path falls through to \<^verbatim>\<open>cc.chars[c] = true\<close>. The indices stay below \<open>e\<close>, and
  \<open>e\<close> is an index of \<open>s\<close>.
\<close>

function class_loop :: "byte list \<Rightarrow> nat \<Rightarrow> nat \<Rightarrow> charClass \<Rightarrow> error + charClass" where
  "class_loop s e i cc =
     (if i < e
      then (let c = s ! i
            in if c = of_char CHR ''-'' \<and> 0 < i \<and> i + 1 < e
               then (let next = s ! (i + 1)
                     in if next < s ! (i - 1) then Inl (InvalidRange (s ! (i - 1)) next)
                        else class_loop s e (i + 1)
                               (cc\<lparr>chars := set_range (s ! (i - 1)) next (chars cc)\<rparr>))
               else class_loop s e (i + 1) (cc\<lparr>chars := (chars cc)(c := True)\<rparr>))
      else Inr cc)"
  by pat_completeness auto
termination
  by (relation "measure (\<lambda>(s, e, i, cc). e - i)") auto

declare class_loop.simps [simp del]

definition parseCharClass :: "byte list \<Rightarrow> error + (charClass \<times> byte list)" where
  "parseCharClass s =
     (let cc = \<lparr>chars = (\<lambda>_. False), invert = False\<rparr>;
          (s, ok) = CutPrefix s [of_char CHR ''['']
      in if \<not> ok then Inl (ExpectOpenBracket s)
         else if length s = 0 then Inl ExpectCharClassEOF
         else (let (s, cc) = (if hd s = of_char CHR ''!''
                              then (tl s, cc\<lparr>invert := True\<rparr>) else (s, cc));
                   e = IndexByte s (of_char CHR '']'')
               in if e < 0 then Inl (ExpectCloseBracket s)
                  else (case class_loop s (nat e) 0 cc of
                          Inl err \<Rightarrow> Inl err
                        | Inr cc \<Rightarrow> Inr (cc, drop (nat (e + 1)) s))))"

text \<open>
  \<^verbatim>\<open>parseMatcher\<close>: the guard is \<^verbatim>\<open>len(s) != 0\<close> in the source, so the
  \<^verbatim>\<open>switch\<close> is reached with the empty string only, where \<^verbatim>\<open>s[0]\<close> panics.
\<close>

definition parseMatcher :: "byte list \<Rightarrow> error + (matcher \<times> byte list)" where
  "parseMatcher s =
     (if length s \<noteq> 0 then Inl UnexpectedEndOfInput
      else (case s of
              [] \<Rightarrow> Inl (Panic IndexOutOfRange)
            | c # rest \<Rightarrow>
                (if c = of_char CHR ''[''
                 then (case parseCharClass s of
                         Inl err \<Rightarrow> Inl err
                       | Inr (cc, r) \<Rightarrow> Inr (CharClass cc, r))
                 else if c = of_char CHR ''*'' then Inr (Wildcard False, rest)
                 else if c = of_char CHR ''?'' then Inr (Wildcard True, rest)
                 else Inr (CharMatcher c, rest))))"

section \<open>The listener\<close>

text \<open>
  A \<^verbatim>\<open>Handler\<close> is run for its effect: \<open>'w\<close> is whatever it can change, and
  \<^verbatim>\<open>Handle\<close> is a function of the message and that state, returning the error (or
  \<^verbatim>\<open>nil\<close>) with the new state. An entry of the table pairs the registered pattern text
  \<^verbatim>\<open>p\<close> with the handler \<^verbatim>\<open>h\<close>.
\<close>

datatype 'w handler =
  handler (handler_p: "byte list") (handler_h: "Message \<Rightarrow> 'w \<Rightarrow> error option \<times> 'w")

text \<open>The lines written by \<^verbatim>\<open>log.Printf\<close>, with the values they are formatted from.\<close>

datatype log_entry =
    ReceivedInvalidMessage string error
  | ErrorFromHandler "byte list" error Message
  | ErrorHandlingMessage error "Message option"

text \<open>
  What serving changes: the state of the handlers, the log, and the channel \<^verbatim>\<open>recv\<close>,
  a queue of \<^verbatim>\<open>*osc.Message\<close> with \<open>None\<close> for the \<^verbatim>\<open>nil\<close> pointer.
\<close>

record 'w serving =
  world :: 'w
  logs :: "log_entry list"
  recv :: "Message option list"

text \<open>\<^verbatim>\<open>Listener.Handle\<close> appends to the table.\<close>

definition Listener_Handle ::
  "byte list \<Rightarrow> (Message \<Rightarrow> 'w \<Rightarrow> error option \<times> 'w) \<Rightarrow> 'w handler list \<Rightarrow> 'w handler list" where
  "Listener_Handle pattern h handlers = handlers @ [handler pattern h]"

text \<open>The loop \<^verbatim>\<open>for _, m := range l.handlers\<close> of \<^verbatim>\<open>Listener.handle\<close>.\<close>

fun dispatch :: "Pattern \<Rightarrow> 'w handler list \<Rightarrow> Message \<Rightarrow> 'w serving \<Rightarrow> 'w serving" where
  "dispatch pattern [] msg st = st"
| "dispatch pattern (m # ms) msg st =
     (if Pattern_Match pattern (handler_p m)
      then (case handler_h m msg (world st) of
              (Some err, w) \<Rightarrow>
                dispatch pattern ms msg
                  (st\<lparr>world := w, logs := logs st @ [ErrorFromHandler (handler_p m) err msg]\<rparr>)
            | (None, w) \<Rightarrow> dispatch pattern ms msg (st\<lparr>world := w\<rparr>))
      else dispatch pattern ms msg st)"

text \<open>
  \<^verbatim>\<open>Listener.handle\<close>. \<^verbatim>\<open>ParsePattern\<close> is called here and defined in no source
  file at hand: it is the parameter \<open>ParsePattern\<close>. Reading \<^verbatim>\<open>msg.Pattern\<close> through
  a \<^verbatim>\<open>nil\<close> pointer panics, before anything else happens.
\<close>

fun handle ::
  "(byte list \<Rightarrow> error + Pattern) \<Rightarrow> 'w handler list \<Rightarrow> Message option \<Rightarrow> 'w serving
     \<Rightarrow> error option \<times> 'w serving" where
  "handle ParsePattern handlers None st = (Some (Panic NilDereference), st)"
| "handle ParsePattern handlers (Some msg) st =
     (case ParsePattern (Pattern msg) of
        Inl err \<Rightarrow> (Some err, st)
      | Inr pattern \<Rightarrow> (None, dispatch pattern handlers msg st))"

text \<open>
  The receiving goroutine of \<^verbatim>\<open>Listener.Serve\<close>, run on the results of the successive
  calls of \<^verbatim>\<open>ReadFrom\<close>: the bytes \<^verbatim>\<open>buf[:n]\<close>, the sender and the error. The
  context is not cancelled and \<^verbatim>\<open>recv\<close> has room, so the \<^verbatim>\<open>select\<close> sends. The
  result is the error the goroutine returns, or \<open>None\<close> while it waits for the next
  datagram.
\<close>

fun receive_loop ::
  "(byte list \<times> string \<times> error option) list \<Rightarrow> 'w serving \<Rightarrow> error option \<times> 'w serving" where
  "receive_loop [] st = (None, st)"
| "receive_loop ((data, addr, err) # reads) st =
     (let st =
        (if 0 < length data
         then (let (msg, err) = (case ParseMessage data of
                                   Inl err \<Rightarrow> (None, Some err)
                                 | Inr m \<Rightarrow> (Some m, None));
                   st = (case err of
                           Some err \<Rightarrow> st\<lparr>logs := logs st @ [ReceivedInvalidMessage addr err]\<rparr>
                         | None \<Rightarrow> st)
               in st\<lparr>recv := recv st @ [msg]\<rparr>)
         else st)
      in (case err of Some err \<Rightarrow> (Some err, st) | None \<Rightarrow> receive_loop reads st))"

text \<open>
  One round of a worker goroutine: it takes the message at the head of \<^verbatim>\<open>recv\<close> and
  handles it. A returned error is logged; a panic is not an error value and ends the
  goroutine, which is the result \<open>Some p\<close>.
\<close>

definition worker_round ::
  "(byte list \<Rightarrow> error + Pattern) \<Rightarrow> 'w handler list \<Rightarrow> 'w serving \<Rightarrow> panic option \<times> 'w serving" where
  "worker_round ParsePattern handlers st =
     (case recv st of
        [] \<Rightarrow> (None, st)
      | msg # queue \<Rightarrow>
          (case handle ParsePattern handlers msg (st\<lparr>recv := queue\<rparr>) of
             (Some (Panic p), st) \<Rightarrow> (Some p, st)
           | (Some err, st) \<Rightarrow> (None, st\<lparr>logs := logs st @ [ErrorHandlingMessage err msg]\<rparr>)
           | (None, st) \<Rightarrow> (None, st)))"

text \<open>
  One call of \<^verbatim>\<open>Handle\<close> as the loop of \<^verbatim>\<open>Listener.handle\<close> makes it: the handler
  runs on the message, and its error, if any, is logged with its pattern and the message.
\<close>

definition call_handler :: "Message \<Rightarrow> 'w serving \<Rightarrow> 'w handler \<Rightarrow> 'w serving" where
  "call_handler msg st m =
     (case handler_h m msg (world st) of
        (Some err, w) \<Rightarrow>
          st\<lparr>world := w, logs := logs st @ [ErrorFromHandler (handler_p m) err msg]\<rparr>
      | (None, w) \<Rightarrow> st\<lparr>world := w\<rparr>)"

section \<open>Properties of the String codec\<close>

lemma DecodeRuneInString_ascii: "c < 0x80 \<Longrightarrow> DecodeRuneInString (c # r) = (ucast c, 1)"
  by (simp add: DecodeRuneInString_def)

lemma DecodeRuneInString_width: "s \<noteq> [] \<Longrightarrow> 0 < snd (DecodeRuneInString s)"
  by (cases s) (simp_all add: DecodeRuneInString_def Let_def split: option.splits prod.splits)

lemma append_range_Nil: "append_range [] b = b"
  by (subst append_range.simps) simp

lemma append_range_Cons:
  "append_range (c # s) b
     = append_range (drop (snd (DecodeRuneInString (c # s))) (c # s)) (b @ [c])"
  by (subst append_range.simps) simp

lemma append_range_acc: "append_range s b = b @ append_range s []"
proof (induction "length s" arbitrary: s b rule: less_induct)
  case less
  show ?case
  proof (cases s)
    case Nil
    then show ?thesis by (simp add: append_range_Nil)
  next
    case (Cons c r)
    define s' where "s' = drop (snd (DecodeRuneInString (c # r))) (c # r)"
    have "0 < snd (DecodeRuneInString (c # r))"
      by (rule DecodeRuneInString_width) simp
    then have "length s' < length s"
      by (simp add: s'_def Cons)
    then have ih: "append_range s' x = x @ append_range s' []" for x
      by (rule less)
    have "append_range s b = (b @ [c]) @ append_range s' []"
      unfolding Cons append_range_Cons [of c r b] s'_def [symmetric] by (rule ih)
    moreover have "append_range s [] = [c] @ append_range s' []"
      unfolding Cons append_range_Cons [of c r "[]"] s'_def [symmetric] using ih [of "[c]"]
      by simp
    ultimately show ?thesis by simp
  qed
qed

lemma append_range_ascii: "ascii s \<Longrightarrow> append_range s [] = s"
proof (induction s)
  case Nil
  show ?case by (rule append_range_Nil)
next
  case (Cons c s)
  then have c: "c < 0x80" and s: "ascii s"
    by (simp_all add: ascii_def)
  have "append_range (c # s) [] = append_range s [c]"
    by (simp add: append_range_Cons DecodeRuneInString_ascii [OF c])
  also have "\<dots> = [c] @ append_range s []"
    by (rule append_range_acc)
  finally show ?case
    using Cons.IH [OF s] by simp
qed

lemma pad4_aligned: "length b mod 4 = 0 \<Longrightarrow> pad4 b = b"
  by (subst pad4.simps) simp

lemma pad4_step: "0 < length b mod 4 \<Longrightarrow> pad4 b = pad4 (b @ [0])"
  by (subst pad4.simps) simp

lemma pad4_replicate: "pad4 b = b @ replicate ((4 - length b mod 4) mod 4) 0"
proof (induction b rule: pad4.induct)
  case (1 b)
  define r where "r = length b mod 4"
  have r4: "r < 4" by (simp add: r_def)
  show ?case
  proof (cases "0 < r")
    case False
    then have "length b mod 4 = 0" by (simp add: r_def)
    then show ?thesis by (simp add: pad4_aligned)
  next
    case True
    then have pos: "0 < length b mod 4" by (simp add: r_def)
    have s: "Suc (length b) mod 4 = (if Suc r = 4 then 0 else Suc r)"
      unfolding r_def by (rule mod_Suc)
    have ih: "pad4 (b @ [0]) = (b @ [0]) @ replicate ((4 - length (b @ [0]) mod 4) mod 4) 0"
      by (rule "1.IH" [OF pos])
    from r4 True consider "r = 1" | "r = 2" | "r = 3" by linarith
    then have k: "Suc ((4 - Suc (length b) mod 4) mod 4) = (4 - r) mod 4"
      by cases (simp_all add: s)
    have "pad4 b = b @ 0 # replicate ((4 - Suc (length b) mod 4) mod 4) 0"
      using ih by (simp add: pad4_step [OF pos])
    also have "\<dots> = b @ replicate (Suc ((4 - Suc (length b) mod 4) mod 4)) 0"
      by simp
    finally show ?thesis by (simp only: k r_def)
  qed
qed

lemma pad4_length: "length (pad4 b) mod 4 = 0"
proof (induction b rule: pad4.induct)
  case (1 b)
  show ?case
  proof (cases "0 < length b mod 4")
    case True
    then show ?thesis using "1.IH" by (simp add: pad4_step)
  next
    case False
    then show ?thesis by (simp add: pad4_aligned)
  qed
qed

lemma pad4_prefix: "take (length b) (pad4 b) = b"
  by (subst pad4_replicate) simp

lemma pad4_terminated: "pad4 (x @ [0]) = x @ replicate (4 - length x mod 4) 0"
proof -
  define r where "r = length x mod 4"
  have r4: "r < 4" by (simp add: r_def)
  have s: "Suc (length x) mod 4 = (if Suc r = 4 then 0 else Suc r)"
    unfolding r_def by (rule mod_Suc)
  from r4 consider "r = 0" | "r = 1" | "r = 2" | "r = 3" by linarith
  then have k: "Suc ((4 - Suc (length x) mod 4) mod 4) = 4 - r"
    by cases (simp_all add: s)
  have "pad4 (x @ [0]) = (x @ [0]) @ replicate ((4 - length (x @ [0]) mod 4) mod 4) 0"
    by (rule pad4_replicate)
  also have "\<dots> = x @ replicate (Suc ((4 - Suc (length x) mod 4) mod 4)) 0"
    by simp
  finally show ?thesis by (simp only: k r_def)
qed

lemma String_Append_pad4: "String_Append s b = pad4 ((b @ append_range s []) @ [0])"
  using append_range_acc [of s b] by (simp add: String_Append_def)

lemma String_Append_length: "4 dvd length (String_Append s b)"
  unfolding String_Append_pad4 using pad4_length [of "(b @ append_range s []) @ [0]"]
  by (simp only: dvd_eq_mod_eq_0)

lemma String_Append_replicate:
  "String_Append s b =
     b @ append_range s [] @ replicate (4 - (length b + length (append_range s [])) mod 4) 0"
  unfolding String_Append_pad4 pad4_terminated by simp

lemma String_Append_nil:
  "String_Append s [] = append_range s [] @ replicate (4 - length (append_range s []) mod 4) 0"
  using String_Append_replicate [of s "[]"] by simp

lemma String_Append_aligned:
  assumes "4 dvd length b"
  shows "String_Append s b = b @ String_Append s []"
proof -
  have "(length b + n) mod 4 = n mod 4" for n
    using assms by (metis dvd_eq_mod_eq_0 mod_add_left_eq add_0)
  then show ?thesis
    unfolding String_Append_nil String_Append_replicate [of s b] by simp
qed

lemma IndexByte_notin: "c \<notin> set b \<Longrightarrow> IndexByte b c = - 1"
  by (induction b) auto

lemma IndexByte_first: "c \<notin> set s \<Longrightarrow> IndexByte (s @ c # r) c = int (length s)"
  by (induction s) (auto simp: Let_def)

lemma IndexByte_neg_iff: "IndexByte b c < 0 \<longleftrightarrow> c \<notin> set b"
proof (cases "c \<in> set b")
  case True
  then obtain s r where "b = s @ c # r" "c \<notin> set s"
    by (auto dest: split_list_first)
  then show ?thesis by (simp add: IndexByte_first)
next
  case False
  then show ?thesis by (simp add: IndexByte_notin)
qed

lemma next4: "int n + 4 - int n mod 4 = int (4 * (n div 4 + 1))"
proof -
  have "int n - int n mod 4 = 4 * (int n div 4)"
    by (rule minus_mod_eq_mult_div)
  then show ?thesis
    by (simp add: zdiv_int)
qed

lemma String_Consume_first:
  assumes "0 \<notin> set s"
  shows "String_Consume (s @ 0 # r) =
           Inr (s, drop (min (4 * (length s div 4 + 1)) (length (s @ 0 # r))) (s @ 0 # r))"
proof -
  have e: "IndexByte (s @ 0 # r) 0 = int (length s)"
    using assms by (rule IndexByte_first)
  have "int (length s) + 4 - int (length s) mod 4 = int (4 * (length s div 4 + 1))"
    by (rule next4)
  then have m: "nat (min (int (length s) + 4 - int (length s) mod 4) (int (length (s @ 0 # r))))
        = min (4 * (length s div 4 + 1)) (length (s @ 0 # r))"
    by (simp only: flip: of_nat_min)
  show ?thesis
    unfolding String_Consume_def e Let_def m by simp
qed

text \<open>
  C5: \<^verbatim>\<open>String.Consume\<close> fails exactly when the buffer holds no NUL byte, the empty
  buffer included. When the first NUL is at index \<open>length s\<close>, it returns the bytes \<open>s\<close>
  before it and the buffer from the next multiple of 4 above that index on, or from the end
  of the buffer when that comes first. The bytes \<open>p\<close> it skips after the NUL are
  not looked at: they may be anything.
\<close>

theorem String_Consume_first_NUL:
  "((\<exists>err. String_Consume b = Inl err) \<longleftrightarrow> 0 \<notin> set b)
   \<and> String_Consume [] = Inl (NoTermination [])
   \<and> (0 \<notin> set s \<longrightarrow>
        String_Consume (s @ 0 # r) =
          Inr (s, drop (min (4 * (length s div 4 + 1)) (length (s @ 0 # r))) (s @ 0 # r)))
   \<and> (0 \<notin> set s \<and> length (s @ 0 # p) = 4 * (length s div 4 + 1) \<longrightarrow>
        String_Consume (s @ 0 # p @ t) = Inr (s, t))"
proof (intro conjI impI)
  show "(\<exists>err. String_Consume b = Inl err) \<longleftrightarrow> 0 \<notin> set b"
    using IndexByte_neg_iff [of b 0] by (auto simp: String_Consume_def Let_def)
next
  show "String_Consume [] = Inl (NoTermination [])"
    by (simp add: String_Consume_def)
next
  assume "0 \<notin> set s"
  then show "String_Consume (s @ 0 # r) =
      Inr (s, drop (min (4 * (length s div 4 + 1)) (length (s @ 0 # r))) (s @ 0 # r))"
    by (rule String_Consume_first)
next
  assume a: "0 \<notin> set s \<and> length (s @ 0 # p) = 4 * (length s div 4 + 1)"
  then have len: "length (s @ 0 # p) = 4 * (length s div 4 + 1)"
    by blast
  have "String_Consume (s @ 0 # p @ t) =
      Inr (s, drop (min (length (s @ 0 # p)) (length (s @ 0 # p @ t))) ((s @ 0 # p) @ t))"
    using a String_Consume_first [of s "p @ t"] by simp
  then show "String_Consume (s @ 0 # p @ t) = Inr (s, t)"
    by simp
qed

theorem String_Consume_first_NUL_witness:
  "0 \<notin> set (str ''a'')
   \<and> length (str ''a'' @ 0 # [7, 7]) = 4 * (length (str ''a'') div 4 + 1)
   \<and> String_Consume (str ''a'' @ 0 # [7, 7] @ [9]) = Inr (str ''a'', [9])
   \<and> String_Consume (str ''ab'' @ 0 # []) = Inr (str ''ab'', [])"
  using String_Consume_first_NUL [of "[]" "str ''a''" "[]" "[7, 7]" "[9]"]
    String_Consume_first_NUL [of "[]" "str ''ab''" "[]" "[]" "[]"]
  by (simp add: str_def)

text \<open>
  C9: the encoding of every argument, appended to the empty buffer, has a length that is a
  multiple of 4: no byte for the four markers, 4 bytes for an \<^verbatim>\<open>Int32\<close> and a
  \<^verbatim>\<open>Float32\<close>, 8 bytes for a \<^verbatim>\<open>TimeTag\<close>, and for a \<^verbatim>\<open>String\<close> the bytes its
  loop appends (the string itself when it is ASCII), the NUL and as many more zero bytes
  as the next multiple of 4 needs.
\<close>

theorem Append_length_multiple_of_4:
  "4 dvd length (Append v [])
   \<and> length (Append TrueArg []) = 0 \<and> length (Append FalseArg []) = 0
   \<and> length (Append Null []) = 0 \<and> length (Append Impulse []) = 0
   \<and> length (Append (Int32 i) []) = 4 \<and> length (Append (Float32 f) []) = 4
   \<and> length (Append (TimeTag t) []) = 8
   \<and> Append (String s) []
       = append_range s [] @ replicate (4 - length (append_range s []) mod 4) 0
   \<and> (ascii s \<longrightarrow> Append (String s) [] = s @ replicate (4 - length s mod 4) 0)"
proof -
  have tt: "length (TimeTag_Append x []) = 8" for x
    by (simp add: TimeTag_Append_def AppendUint64_def Let_def)
  have u32: "length (AppendUint32 [] x) = 4" for x
    by (simp add: AppendUint32_def)
  have "4 dvd length (Append v [])"
  proof (cases v)
    case (String x)
    then show ?thesis by (simp add: String_Append_length)
  qed (simp_all add: tt u32)
  then show ?thesis
    by (simp add: tt u32 String_Append_nil append_range_ascii)
qed

theorem Append_length_multiple_of_4_witness:
  "ascii (str ''ab'')
   \<and> Append (String (str ''ab'')) [] = str ''ab'' @ [0, 0]
   \<and> Append (String [0xC3, 0xA9]) [] = [0xC3, 0, 0, 0]"
proof -
  have a: "ascii (str ''ab'')"
    by (simp add: ascii_def str_def)
  have r: "append_range [0xC3, 0xA9] [] = [0xC3]"
    by (simp add: append_range_Cons append_range_Nil DecodeRuneInString_def first_def)
  have r2: "append_range [97, 98] [] = [97, 98]"
    using append_range_ascii [of "[97, 98]"] by (simp add: ascii_def)
  have rep: "replicate 2 (0 :: byte) = [0, 0]" "replicate 3 (0 :: byte) = [0, 0, 0]"
    by code_simp+
  show ?thesis
    using a Append_length_multiple_of_4 [of "String []" 0 0 0 "str ''ab''"]
      Append_length_multiple_of_4 [of "String []" 0 0 0 "[0xC3, 0xA9]"]
    by (simp add: r r2 str_def rep)
qed

text \<open>
  C10: whatever the buffer \<open>b\<close>, aligned or not, \<^verbatim>\<open>String.Append\<close> leaves a buffer whose
  length is a multiple of 4: it keeps \<open>b\<close>, appends the bytes of its loop and then between
  one and four zero bytes, up to the next multiple of 4 of the total length. So when the
  length of \<open>b\<close> is no multiple of 4, the length of what was appended is none either.
\<close>

theorem String_Append_total_length:
  "4 dvd length (String_Append s b)
   \<and> String_Append s b
       = b @ append_range s [] @ replicate (4 - (length b + length (append_range s [])) mod 4) 0
   \<and> (ascii s \<longrightarrow>
        String_Append s b = b @ s @ replicate (4 - (length b + length s) mod 4) 0)
   \<and> (\<not> 4 dvd length b \<longrightarrow> \<not> 4 dvd (length (String_Append s b) - length b))"
proof (intro conjI impI)
  show total: "4 dvd length (String_Append s b)"
    by (rule String_Append_length)
  show "String_Append s b
      = b @ append_range s [] @ replicate (4 - (length b + length (append_range s [])) mod 4) 0"
    by (rule String_Append_replicate)
  show "String_Append s b = b @ s @ replicate (4 - (length b + length s) mod 4) 0" if "ascii s"
    using that by (simp add: String_Append_replicate append_range_ascii)
  assume n: "\<not> 4 dvd length b"
  have le: "length b \<le> length (String_Append s b)"
    by (simp add: String_Append_replicate)
  show "\<not> 4 dvd (length (String_Append s b) - length b)"
  proof
    assume "4 dvd (length (String_Append s b) - length b)"
    with total le have "4 dvd length b"
      by (metis dvd_diffD1)
    with n show False ..
  qed
qed

theorem String_Append_total_length_witness:
  "\<not> 4 dvd length [1 :: byte]
   \<and> ascii (str ''ab'')
   \<and> String_Append (str ''ab'') [1] = [1] @ str ''ab'' @ [0]
   \<and> \<not> 4 dvd (length (String_Append (str ''ab'') [1]) - length [1 :: byte])
   \<and> String_Append [0xC3, 0xA9] [1] = [1, 0xC3, 0, 0]"
proof -
  have a: "ascii (str ''ab'')"
    by (simp add: ascii_def str_def)
  have r: "append_range [0xC3, 0xA9] [] = [0xC3]"
    by (simp add: append_range_Cons append_range_Nil DecodeRuneInString_def first_def)
  have r2: "append_range [97, 98] [] = [97, 98]"
    using append_range_ascii [of "[97, 98]"] by (simp add: ascii_def)
  have rep: "replicate 2 (0 :: byte) = [0, 0]" "replicate 3 (0 :: byte) = [0, 0, 0]"
    by code_simp+
  have l: "length (String_Append [97, 98] [1]) = 4"
    by (simp add: String_Append_replicate r2)
  show ?thesis
    using a String_Append_total_length [of "str ''ab''" "[1]"]
      String_Append_total_length [of "[0xC3, 0xA9]" "[1]"]
    by (simp add: r r2 l str_def rep) presburger
qed

section \<open>Properties of the pattern engine\<close>

lemmas matchResult_defs =
  noMatch_def matchAdvanceBoth_def matchAdvanceMatcher_def matchAdvanceInput_def

lemma Match_loop_pop:
  "Match_loop (states @ [s]) =
     (snd (matchState_match s) \<or> Match_loop (states @ fst (matchState_match s)))"
  by (subst Match_loop.simps) (auto simp add: Let_def split: prod.splits)

lemma Match_loop_Nil: "\<not> Match_loop []"
  by (simp add: Match_loop.simps)

lemma Pattern_Match_step:
  "Pattern_Match p s =
     (snd (matchState_match (matchState (matchers p) s))
      \<or> Match_loop (fst (matchState_match (matchState (matchers p) s))))"
  using Match_loop_pop [of "[]"] by (simp add: Pattern_Match_def)

lemma Match_single_byte:
  assumes "\<And>b. matcher_match m b = matchAdvanceBoth \<or> matcher_match m b = noMatch"
    and "\<not> remaining_match_nothing [m]"
  shows "Pattern_Match \<lparr>matchers = [m]\<rparr> s \<longleftrightarrow>
           length s = 1 \<and> matcher_match m (hd s) = matchAdvanceBoth"
proof (cases s)
  case Nil
  then show ?thesis using assms(2) by (simp add: Pattern_Match_step Match_loop_Nil)
next
  case (Cons b bs)
  have nb: "matchAdvanceBoth \<noteq> noMatch" by (simp add: matchResult_defs)
  show ?thesis
  proof (cases "matcher_match m b = matchAdvanceBoth")
    case True
    have "Match_loop [matchState [] bs] \<longleftrightarrow> bs = []"
      using Match_loop_pop [of "[]" "matchState [] bs"]
      by (cases bs) (simp_all add: Match_loop_Nil)
    with True Cons show ?thesis
      by (simp add: Pattern_Match_step Let_def matchResult_defs)
  next
    case False
    with assms(1) [of b] have "matcher_match m b = noMatch" by blast
    with Cons nb show ?thesis
      by (simp add: Pattern_Match_step Let_def Match_loop_Nil)
  qed
qed

lemma Match_star_tail: "Match_loop (states @ [matchState [Wildcard False] s])"
proof (induction s arbitrary: states)
  case Nil
  show ?case by (simp add: Match_loop_pop)
next
  case (Cons b bs)
  have "Match_loop ((states @ [matchState [] bs, matchState [] (b # bs)])
          @ [matchState [Wildcard False] bs])"
    by (rule Cons.IH)
  then show ?case
    by (simp add: Match_loop_pop [of states] Let_def matchResult_defs)
qed

lemma Match_literal_star:
  "Pattern_Match \<lparr>matchers = [CharMatcher a, Wildcard False]\<rparr> s \<longleftrightarrow> s \<noteq> [] \<and> hd s = a"
proof (cases s)
  case Nil
  then show ?thesis by (simp add: Pattern_Match_step Match_loop_Nil)
next
  case (Cons b bs)
  show ?thesis
  proof (cases "a = b")
    case True
    with Cons show ?thesis
      using Match_star_tail [of "[]" bs]
      by (simp add: Pattern_Match_step Let_def matchResult_defs)
  next
    case False
    with Cons show ?thesis
      by (auto simp add: Pattern_Match_step Let_def matchResult_defs Match_loop_Nil)
  qed
qed

text \<open>
  C7: on matcher sequences, the single-wildcard pattern \<open>?\<close> matches the strings of
  exactly one byte; the pattern \<open>a*\<close>, a literal followed by the multi-wildcard,
  matches the strings that start with \<open>a\<close>, so \<open>a\<close> and \<open>abc\<close> and neither \<open>b\<close> nor
  the empty string; the pattern \<open>*a\<close> matches \<open>a\<close> and \<open>xa\<close> and not \<open>ax\<close>.
\<close>

theorem Pattern_Match_wildcards:
  "(Pattern_Match \<lparr>matchers = [Wildcard True]\<rparr> s \<longleftrightarrow> length s = 1)
   \<and> Pattern_Match \<lparr>matchers = [CharMatcher (of_char CHR ''a''), Wildcard False]\<rparr> (str ''a'')
   \<and> Pattern_Match \<lparr>matchers = [CharMatcher (of_char CHR ''a''), Wildcard False]\<rparr> (str ''abc'')
   \<and> \<not> Pattern_Match \<lparr>matchers = [CharMatcher (of_char CHR ''a''), Wildcard False]\<rparr> (str ''b'')
   \<and> \<not> Pattern_Match \<lparr>matchers = [CharMatcher (of_char CHR ''a''), Wildcard False]\<rparr> []
   \<and> Pattern_Match \<lparr>matchers = [Wildcard False, CharMatcher (of_char CHR ''a'')]\<rparr> (str ''a'')
   \<and> Pattern_Match \<lparr>matchers = [Wildcard False, CharMatcher (of_char CHR ''a'')]\<rparr> (str ''xa'')
   \<and> \<not> Pattern_Match \<lparr>matchers = [Wildcard False, CharMatcher (of_char CHR ''a'')]\<rparr> (str ''ax'')"
proof -
  have q: "Pattern_Match \<lparr>matchers = [Wildcard True]\<rparr> s \<longleftrightarrow> length s = 1"
    using Match_single_byte [of "Wildcard True" s] by (simp add: matchResult_defs)
  have s1: "Pattern_Match \<lparr>matchers = [Wildcard False, CharMatcher (of_char CHR ''a'')]\<rparr> (str ''a'')"
    by (simp add: Pattern_Match_def Match_loop.simps matchResult_defs Let_def str_def)
  have s2: "Pattern_Match \<lparr>matchers = [Wildcard False, CharMatcher (of_char CHR ''a'')]\<rparr> (str ''xa'')"
    by (simp add: Pattern_Match_def Match_loop.simps matchResult_defs Let_def str_def)
  have s3: "\<not> Pattern_Match \<lparr>matchers = [Wildcard False, CharMatcher (of_char CHR ''a'')]\<rparr> (str ''ax'')"
    by (simp add: Pattern_Match_def Match_loop.simps matchResult_defs Let_def str_def)
  show ?thesis
    using q s1 s2 s3 by (simp add: Match_literal_star) (simp add: str_def)
qed

lemma Match_CharClass:
  "Pattern_Match \<lparr>matchers = [CharClass cc]\<rparr> s \<longleftrightarrow>
     length s = 1 \<and> chars cc (hd s) \<noteq> invert cc"
  using Match_single_byte [of "CharClass cc" s] by (simp add: matchResult_defs)

lemma parseCharClass_a_e:
  "parseCharClass (str ''[a-e]'') =
     Inr (\<lparr>chars = (\<lambda>_. False)(97 := True, 98 := True, 99 := True, 100 := True, 101 := True),
           invert = False\<rparr>, [])"
  by (simp add: parseCharClass_def str_def CutPrefix_def Let_def class_loop.simps
      set_range.simps)

lemma parseCharClass_not_a_e:
  "parseCharClass (str ''[!a-e]'') =
     Inr (\<lparr>chars = (\<lambda>_. False)(97 := True, 98 := True, 99 := True, 100 := True, 101 := True),
           invert = True\<rparr>, [])"
  by (simp add: parseCharClass_def str_def CutPrefix_def Let_def class_loop.simps
      set_range.simps)

text \<open>
  C6: the class compiled from \<open>[a-e]\<close> matches the five bytes from \<open>a\<close> to \<open>e\<close> and no
  other byte, and as a pattern the strings of exactly one such byte; the class compiled
  from \<open>[!a-e]\<close> matches every other byte, and the strings of one such byte; the range
  of \<open>[b-a]\<close>, whose upper bound is below its lower bound, is rejected.
\<close>

theorem parseCharClass_ranges:
  "(\<exists>cc. parseCharClass (str ''[a-e]'') = Inr (cc, [])
      \<and> (\<forall>b. matcher_match (CharClass cc) b =
               (if b \<in> set (str ''abcde'') then matchAdvanceBoth else noMatch))
      \<and> (\<forall>s. Pattern_Match \<lparr>matchers = [CharClass cc]\<rparr> s =
               (length s = 1 \<and> hd s \<in> set (str ''abcde''))))
   \<and> (\<exists>cc. parseCharClass (str ''[!a-e]'') = Inr (cc, [])
      \<and> (\<forall>b. matcher_match (CharClass cc) b =
               (if b \<in> set (str ''abcde'') then noMatch else matchAdvanceBoth))
      \<and> (\<forall>s. Pattern_Match \<lparr>matchers = [CharClass cc]\<rparr> s =
               (length s = 1 \<and> hd s \<notin> set (str ''abcde''))))
   \<and> parseCharClass (str ''[b-a]'') = Inl (InvalidRange (of_char CHR ''b'') (of_char CHR ''a''))"
proof (intro conjI)
  show "\<exists>cc. parseCharClass (str ''[a-e]'') = Inr (cc, [])
      \<and> (\<forall>b. matcher_match (CharClass cc) b =
               (if b \<in> set (str ''abcde'') then matchAdvanceBoth else noMatch))
      \<and> (\<forall>s. Pattern_Match \<lparr>matchers = [CharClass cc]\<rparr> s =
               (length s = 1 \<and> hd s \<in> set (str ''abcde'')))"
    unfolding parseCharClass_a_e Match_CharClass by (auto simp add: str_def)
  show "\<exists>cc. parseCharClass (str ''[!a-e]'') = Inr (cc, [])
      \<and> (\<forall>b. matcher_match (CharClass cc) b =
               (if b \<in> set (str ''abcde'') then noMatch else matchAdvanceBoth))
      \<and> (\<forall>s. Pattern_Match \<lparr>matchers = [CharClass cc]\<rparr> s =
               (length s = 1 \<and> hd s \<notin> set (str ''abcde'')))"
    unfolding parseCharClass_not_a_e Match_CharClass by (auto simp add: str_def)
  show "parseCharClass (str ''[b-a]'')
      = Inl (InvalidRange (of_char CHR ''b'') (of_char CHR ''a''))"
    by (simp add: parseCharClass_def str_def CutPrefix_def Let_def class_loop.simps
        set_range.simps)
qed

text \<open>
  C1 (the code differs): \<^verbatim>\<open>parseMatcher\<close> returns the error "unexpected end of input"
  for every input that is not empty, whatever its first byte, and panics on the empty
  input; it returns no matcher at all.
\<close>

theorem parseMatcher_rejects_nonempty:
  "parseMatcher s = (if s = [] then Inl (Panic IndexOutOfRange) else Inl UnexpectedEndOfInput)
   \<and> parseMatcher (str ''a'') = Inl UnexpectedEndOfInput
   \<and> parseMatcher (str ''*'') = Inl UnexpectedEndOfInput
   \<and> parseMatcher (str ''?'') = Inl UnexpectedEndOfInput
   \<and> parseMatcher (str ''[a]'') = Inl UnexpectedEndOfInput"
  by (simp add: parseMatcher_def str_def)

subsection \<open>The listener\<close>

lemma dispatch_foldl:
  "dispatch pattern hs msg st =
     foldl (call_handler msg) st (filter (\<lambda>m. Pattern_Match pattern (handler_p m)) hs)"
  by (induction hs arbitrary: st) (simp_all add: call_handler_def split: prod.splits option.splits)

text \<open>
  C4: to dispatch a decoded message, \<^verbatim>\<open>handle\<close> compiles a pattern from the address of
  the message itself; when that succeeds it calls \<^verbatim>\<open>Handle\<close> with the message on the
  registered handlers whose pattern text the compiled pattern matches, on each of them
  once and in the order of registration, and on no other handler. An error from a handler
  is logged with its pattern and the message, and the handlers after it are still called.
  When the address does not compile, the error is returned and no handler is called.
\<close>

theorem handle_calls_matching_handlers:
  "handle ParsePattern hs (Some msg) st =
     (case ParsePattern (Pattern msg) of
        Inl err \<Rightarrow> (Some err, st)
      | Inr pattern \<Rightarrow>
          (None, foldl (call_handler msg) st
                   (filter (\<lambda>m. Pattern_Match pattern (handler_p m)) hs)))"
  by (simp add: dispatch_foldl split: sum.splits)

theorem handle_calls_matching_handlers_witness:
  "handle (\<lambda>s. Inr \<lparr>matchers = map CharMatcher s\<rparr>)
      [handler (str ''/a'') (\<lambda>m w. (Some (OtherError ''failed''), w @ [1 :: nat])),
       handler (str ''/b'') (\<lambda>m w. (None, w @ [2])),
       handler (str ''/a'') (\<lambda>m w. (None, w @ [3]))]
      (Some \<lparr>Pattern = str ''/a'', Arguments = []\<rparr>)
      \<lparr>world = [], logs = [], recv = []\<rparr>
   = (None, \<lparr>world = [1, 3],
             logs = [ErrorFromHandler (str ''/a'') (OtherError ''failed'')
                       \<lparr>Pattern = str ''/a'', Arguments = []\<rparr>],
             recv = []\<rparr>)"
  unfolding handle_calls_matching_handlers
  by (simp add: call_handler_def str_def Pattern_Match_def Match_loop.simps Let_def
      matchResult_defs)

text \<open>
  C2 (the code differs): a datagram that does not decode is logged, and then the
  \<^verbatim>\<open>nil\<close> message is sent on \<^verbatim>\<open>recv\<close> all the same. The worker that takes it
  panics on \<^verbatim>\<open>msg.Pattern\<close>.
\<close>

theorem Serve_enqueues_invalid_datagram:
  "ParseMessage (str ''a'') = Inl (ReadingAddressPattern (NoTermination (str ''a'')))
   \<and> receive_loop [(str ''a'', ''sender'', None)] \<lparr>world = w, logs = [], recv = []\<rparr>
       = (None, \<lparr>world = w,
                 logs = [ReceivedInvalidMessage ''sender''
                           (ReadingAddressPattern (NoTermination (str ''a'')))],
                 recv = [None]\<rparr>)
   \<and> worker_round ParsePattern hs \<lparr>world = w, logs = l, recv = [None]\<rparr>
       = (Some NilDereference, \<lparr>world = w, logs = l, recv = []\<rparr>)"
  by (simp add: ParseMessage_def String_Consume_def str_def worker_round_def)

section \<open>Round trips through the codec\<close>

subsection \<open>Byte order\<close>

lemma Uint32_AppendUint32: "Uint32 (AppendUint32 [] v @ t) = Inr v"
proof -
  have "ucast (ucast v :: byte) OR push_bit 8 (ucast (ucast (drop_bit 8 v) :: byte))
        OR push_bit 16 (ucast (ucast (drop_bit 16 v) :: byte))
        OR push_bit 24 (ucast (ucast (drop_bit 24 v) :: byte)) = v"
  proof (rule bit_word_eqI)
    fix n
    assume "n < LENGTH(32)"
    then have n: "n < 32" by simp
    have a: "k \<le> n \<Longrightarrow> k + (n - k) = n" for k by simp
    from n consider "n < 8" | "8 \<le> n" "n < 16" | "16 \<le> n" "n < 24" | "24 \<le> n" "n < 32"
      by linarith
    then show "bit (ucast (ucast v :: byte) OR push_bit 8 (ucast (ucast (drop_bit 8 v) :: byte))
        OR push_bit 16 (ucast (ucast (drop_bit 16 v) :: byte))
        OR push_bit 24 (ucast (ucast (drop_bit 24 v) :: byte)) :: 32 word) n = bit v n"
      by cases (auto simp add: bit_simps a)
  qed
  then show ?thesis
    by (simp add: AppendUint32_def)
qed

lemma Uint64_AppendUint64: "Uint64 (AppendUint64 [] v @ t) = Inr v"
proof -
  have "ucast (ucast v :: byte) OR push_bit 8 (ucast (ucast (drop_bit 8 v) :: byte))
        OR push_bit 16 (ucast (ucast (drop_bit 16 v) :: byte))
        OR push_bit 24 (ucast (ucast (drop_bit 24 v) :: byte))
        OR push_bit 32 (ucast (ucast (drop_bit 32 v) :: byte))
        OR push_bit 40 (ucast (ucast (drop_bit 40 v) :: byte))
        OR push_bit 48 (ucast (ucast (drop_bit 48 v) :: byte))
        OR push_bit 56 (ucast (ucast (drop_bit 56 v) :: byte)) = v"
  proof (rule bit_word_eqI)
    fix n
    assume "n < LENGTH(64)"
    then have n: "n < 64" by simp
    have a: "k \<le> n \<Longrightarrow> k + (n - k) = n" for k by simp
    from n consider "n < 8" | "8 \<le> n" "n < 16" | "16 \<le> n" "n < 24" | "24 \<le> n" "n < 32"
      | "32 \<le> n" "n < 40" | "40 \<le> n" "n < 48" | "48 \<le> n" "n < 56" | "56 \<le> n" "n < 64"
      by linarith
    then show "bit (ucast (ucast v :: byte) OR push_bit 8 (ucast (ucast (drop_bit 8 v) :: byte))
        OR push_bit 16 (ucast (ucast (drop_bit 16 v) :: byte))
        OR push_bit 24 (ucast (ucast (drop_bit 24 v) :: byte))
        OR push_bit 32 (ucast (ucast (drop_bit 32 v) :: byte))
        OR push_bit 40 (ucast (ucast (drop_bit 40 v) :: byte))
        OR push_bit 48 (ucast (ucast (drop_bit 48 v) :: byte))
        OR push_bit 56 (ucast (ucast (drop_bit 56 v) :: byte)) :: 64 word) n = bit v n"
      by cases (auto simp add: bit_simps a)
  qed
  then show ?thesis
    by (simp add: AppendUint64_def)
qed

subsection \<open>Times at or before the epoch\<close>

lemma round_half_even_nonneg: "0 \<le> q \<Longrightarrow> 0 \<le> round_half_even q"
  by (simp add: round_half_even_def Let_def)

lemma f64_nonpos:
  assumes "x \<le> 0"
  shows "f64 x \<le> 0"
proof (cases "x = 0")
  case True
  then show ?thesis by (simp add: f64_def)
next
  case False
  define u :: rat where "u = 2 powi (max (ilog2 \<bar>x\<bar>) (- 1022) - 52)"
  have u: "0 < u" by (simp add: u_def)
  have "0 \<le> \<bar>x\<bar> / u" using u by simp
  then have "0 \<le> round_half_even (\<bar>x\<bar> / u)" by (rule round_half_even_nonneg)
  then have "0 \<le> (of_int (round_half_even (\<bar>x\<bar> / u)) :: rat) * u"
    using u by simp
  moreover have "sgn x = - 1" using assms False by simp
  ultimately show ?thesis
    using False by (simp add: f64_def Let_def u_def mult.assoc)
qed

lemma Duration_Seconds_nonpos:
  assumes "d \<le> 0"
  shows "Duration_Seconds d \<le> 0"
proof -
  have s: "d sdiv Second \<le> 0"
    using assms by (simp add: signed_divide_int_def Second_def sgn_if pos_imp_zdiv_nonneg_iff)
  have n: "d smod Second \<le> 0"
    using assms by (simp add: signed_modulo_int_def Second_def sgn_if)
  have a: "f64 (of_int (d sdiv Second)) \<le> 0"
    using s by (intro f64_nonpos) simp
  have "f64 (of_int (d smod Second)) \<le> 0"
    using n by (intro f64_nonpos) simp
  then have "f64 (of_int (d smod Second)) / 1000000000 \<le> 0"
    by (simp add: divide_le_0_iff)
  then have b: "f64 (f64 (of_int (d smod Second)) / 1000000000) \<le> 0"
    by (rule f64_nonpos)
  show ?thesis
    unfolding Duration_Seconds_def Let_def
    using a b by (intro f64_nonpos) simp
qed

lemma TimeTag_Append_before_epoch:
  assumes "d \<le> 0"
  shows "TimeTag_Append d b = b @ [0, 0, 0, 0, 0, 0, 0, 0]"
proof -
  have "Time_Sub d epoch \<le> 0"
    using assms by (simp add: Time_Sub_def epoch_def)
  then have "Duration_Seconds (Time_Sub d epoch) \<le> 0"
    by (rule Duration_Seconds_nonpos)
  then show ?thesis
    by (simp add: TimeTag_Append_def Let_def)
qed

lemma TimeTag_Consume_zeros:
  "TimeTag_Consume ([0, 0, 0, 0, 0, 0, 0, 0] @ t) = Inr (epoch, t)"
  by (simp add: TimeTag_Consume_def f64_def Time_Add_def trunc_def)

lemma TimeTag_Append_length: "length (TimeTag_Append d []) = 8"
  by (simp add: TimeTag_Append_def AppendUint64_def Let_def)

lemma TimeTag_Append_append: "TimeTag_Append d b = b @ TimeTag_Append d []"
  by (simp add: TimeTag_Append_def AppendUint64_def Let_def)

lemma length_8:
  assumes "length x = 8"
  obtains b0 b1 b2 b3 b4 b5 b6 b7 where "x = [b0, b1, b2, b3, b4, b5, b6, b7]"
proof -
  from assms have "length x = Suc (Suc (Suc (Suc (Suc (Suc (Suc (Suc 0)))))))"
    by simp
  then show ?thesis
    using that by (auto simp add: length_Suc_conv)
qed

lemma TimeTag_Consume_append:
  assumes "length x = 8"
  obtains d where "TimeTag_Consume x = Inr (d, [])"
    and "\<And>t. TimeTag_Consume (x @ t) = Inr (d, t)"
proof -
  from assms obtain b0 b1 b2 b3 b4 b5 b6 b7 where x: "x = [b0, b1, b2, b3, b4, b5, b6, b7]"
    by (rule length_8)
  show ?thesis
    by (rule that [where d = "fst (projr (TimeTag_Consume x))"])
       (simp_all add: x TimeTag_Consume_def Let_def)
qed

subsection \<open>Whole seconds\<close>

lemma bitlen_nonpos: "n \<le> 0 \<Longrightarrow> bitlen n = 0"
  by (subst bitlen.simps) simp

lemma bitlen_pos: "0 < n \<Longrightarrow> bitlen n = 1 + bitlen (n div 2)"
  by (subst bitlen.simps) simp

lemma bitlen_bounds:
  "0 < n \<Longrightarrow> 1 \<le> bitlen n \<and> 2 ^ nat (bitlen n - 1) \<le> n \<and> n < 2 ^ nat (bitlen n)"
proof (induction n rule: bitlen.induct)
  case (1 n)
  show ?case
  proof (cases "0 < n div 2")
    case False
    with "1.prems" have n: "n = 1" by linarith
    have "bitlen 1 = 1"
      by (simp add: bitlen_pos bitlen_nonpos)
    then show ?thesis by (simp add: n)
  next
    case True
    define b where "b = bitlen (n div 2)"
    have ih: "1 \<le> b \<and> 2 ^ nat (b - 1) \<le> n div 2 \<and> n div 2 < 2 ^ nat b"
      unfolding b_def using "1.prems" True by (intro "1.IH") simp_all
    have bn: "bitlen n = 1 + b"
      using "1.prems" by (simp add: bitlen_pos b_def)
    have e: "nat b = Suc (nat (b - 1))"
      using ih by linarith
    have "2 * 2 ^ nat (b - 1) \<le> n"
      using ih by linarith
    moreover have "n < 2 * 2 ^ nat b"
      using ih by linarith
    ultimately show ?thesis
      using ih by (simp add: bn e nat_add_distrib)
  qed
qed

lemma ilog2_of_int:
  assumes "0 < N"
  shows "ilog2 (of_int N) = bitlen N - 1"
proof -
  have b1: "bitlen 1 = 1"
    by (simp add: bitlen_pos bitlen_nonpos)
  have b: "1 \<le> bitlen N" and lo: "2 ^ nat (bitlen N - 1) \<le> N"
    using bitlen_bounds [OF assms] by simp_all
  have "(2 :: rat) powi (bitlen N - 1) = of_int (2 ^ nat (bitlen N - 1))"
    using b by (simp add: power_int_def)
  also have "\<dots> \<le> of_int N"
    using lo by (simp only: of_int_le_iff)
  finally show ?thesis
    by (simp add: ilog2_def b1)
qed

lemma round_half_even_of_int: "round_half_even (of_int Q) = Q"
  by (simp add: round_half_even_def)

lemma f64_of_int_exact:
  assumes "0 \<le> N" and "N = m * 2 ^ j" and "m < 2 ^ 53"
  shows "f64 (of_int N) = of_int N"
proof (cases "N = 0")
  case True
  then show ?thesis by (simp add: f64_def)
next
  case False
  with assms(1) have pos: "0 < N" by simp
  define e where "e = bitlen N - 1"
  define u :: rat where "u = 2 powi (e - 52)"
  have e0: "0 \<le> e" and lo: "2 ^ nat e \<le> N" and hi: "N < 2 ^ nat (e + 1)"
    using bitlen_bounds [OF pos] by (simp_all add: e_def)
  have u0: "0 < u" by (simp add: u_def)
  have "\<exists>Q. (of_int N :: rat) = of_int Q * u"
  proof (cases "e \<le> 52")
    case True
    then have "u = inverse (2 ^ nat (52 - e))"
      by (cases "e = 52") (simp_all add: u_def power_int_def power_one_over inverse_eq_divide)
    then have "(of_int N :: rat) = of_int (N * 2 ^ nat (52 - e)) * u"
      by simp
    then show ?thesis ..
  next
    case False
    then have u: "u = 2 ^ nat (e - 52)"
      by (simp add: u_def power_int_def)
    have mpos: "0 < m"
      using pos assms(2) by (simp add: zero_less_mult_iff)
    have "(2 :: int) ^ nat e < 2 ^ 53 * 2 ^ j"
    proof -
      have "2 ^ nat e \<le> m * 2 ^ j" using lo assms(2) by simp
      also have "\<dots> < 2 ^ 53 * 2 ^ j" using assms(3) by simp
      finally show ?thesis .
    qed
    then have "(2 :: int) ^ nat e < 2 ^ (53 + j)"
      by (simp add: power_add)
    then have "nat e < 53 + j"
      by simp
    then have "nat (e - 52) \<le> j"
      using False by linarith
    then obtain d where j: "j = nat (e - 52) + d"
      using le_Suc_ex by blast
    have "N = (m * 2 ^ d) * 2 ^ nat (e - 52)"
      unfolding assms(2) j by (simp add: power_add)
    then have "(of_int N :: rat) = of_int (m * 2 ^ d) * u"
      unfolding u by (metis of_int_mult of_int_numeral of_int_power)
    then show ?thesis ..
  qed
  then obtain Q where Q: "(of_int N :: rat) = of_int Q * u" ..
  have q: "(of_int N :: rat) / u = of_int Q"
    using u0 Q by simp
  have il: "max (ilog2 (of_int N :: rat)) (- 1022) = e"
    using e0 ilog2_of_int [OF pos] by (simp add: e_def)
  have "f64 (of_int N) = of_int Q * u"
    using pos by (simp add: f64_def Let_def il u_def [symmetric] q round_half_even_of_int)
  with Q show ?thesis by simp
qed

lemma seconds_word:
  assumes "0 \<le> k" and "k < 2 ^ 32"
  shows "uint (drop_bit 32 (push_bit 32 (word_of_int k :: 64 word))) = k"
    and "push_bit 32 (word_of_int k :: 64 word) AND 0xffffffff = 0"
proof -
  have t: "take_bit 32 k = k"
    using assms by (simp add: take_bit_int_eq_self)
  have t64: "take_bit 64 k = k"
    using assms by (intro take_bit_int_eq_self) simp_all
  show "uint (drop_bit 32 (push_bit 32 (word_of_int k :: 64 word))) = k"
    by (simp add: unsigned_drop_bit_eq unsigned_push_bit_eq uint_word_of_int_eq
        take_bit_push_bit drop_bit_push_bit t t64)
  have m: "(0xffffffff :: 64 word) = mask 32"
    by (simp add: mask_eq_exp_minus_1)
  show "push_bit 32 (word_of_int k :: 64 word) AND 0xffffffff = 0"
    unfolding m by (simp flip: take_bit_eq_mask add: take_bit_push_bit)
qed

lemma f64_zero: "f64 0 = 0"
  by (simp add: f64_def)

lemma trunc_of_int: "trunc (of_int n) = n"
  by (simp add: trunc_def)

lemma f64_small_int:
  assumes "0 \<le> k" and "k < 2 ^ 53"
  shows "f64 (of_int k) = of_int k"
  using assms f64_of_int_exact [of k k 0] by simp

lemma f64_Second: "f64 1000000000 = 1000000000"
  using f64_small_int [of 1000000000] by simp

lemma f64_nanoseconds:
  assumes "0 \<le> k" and "k < 2 ^ 32"
  shows "f64 (of_int k * 1000000000) = of_int (k * 1000000000)"
proof -
  have "k * 1953125 < 2 ^ 32 * 1953125"
    using assms by simp
  then have m: "k * 1953125 < 2 ^ 53"
    by simp
  have "k * 1000000000 = (k * 1953125) * 2 ^ 9"
    by simp
  then have "f64 (of_int (k * 1000000000)) = of_int (k * 1000000000)"
    using assms(1) m by (intro f64_of_int_exact [where m = "k * 1953125" and j = 9]) simp_all
  then show ?thesis by simp
qed

lemma whole_seconds_split:
  assumes "whole_seconds t"
  obtains k where "t = k * Second" and "0 \<le> k" and "k < 2 ^ 32"
proof -
  from assms have t: "0 \<le> t" "t < 2 ^ 32 * Second" "t mod Second = 0"
    by (simp_all add: whole_seconds_def)
  have s: "0 < Second" by (simp add: Second_def)
  have "t = (t div Second) * Second"
    using t(3) by (simp add: mod_eq_0_iff_dvd)
  moreover have "0 \<le> t div Second"
    using t(1) s by (simp add: pos_imp_zdiv_nonneg_iff)
  moreover have "t div Second < 2 ^ 32"
  proof -
    have "(t div Second) * Second < 2 ^ 32 * Second"
      using t(2) calculation by simp
    then show ?thesis by (simp add: Second_def)
  qed
  ultimately show ?thesis by (rule that)
qed

lemma Duration_Seconds_whole:
  assumes "0 \<le> k" and "k < 2 ^ 32"
  shows "Duration_Seconds (k * Second) = of_int k"
proof -
  have d: "(k * Second) sdiv Second = k"
    using assms(1) by (simp add: signed_divide_int_def Second_def sgn_if abs_mult)
  have m: "(k * Second) smod Second = 0"
    by (simp add: signed_modulo_int_def Second_def abs_mult)
  have "k < 2 ^ 53" using assms(2) by simp
  then have "f64 (of_int k) = of_int k"
    using assms(1) by (intro f64_small_int)
  then show ?thesis
    by (simp add: Duration_Seconds_def Let_def d m f64_zero)
qed

lemma TimeTag_Append_whole:
  assumes "0 \<le> k" and "k < 2 ^ 32"
  shows "TimeTag_Append (k * Second) b = AppendUint64 b (push_bit 32 (word_of_int k))"
proof -
  have "k * Second < 2 ^ 32 * Second"
    using assms(2) by (simp add: Second_def)
  then have s: "Time_Sub (k * Second) epoch = k * Second"
    using assms(1) by (simp add: Time_Sub_def epoch_def Second_def)
  have d: "Duration_Seconds (Time_Sub (k * Second) epoch) = of_int k"
    unfolding s using assms by (rule Duration_Seconds_whole)
  show ?thesis
  proof (cases "k = 0")
    case True
    show ?thesis
      unfolding TimeTag_Append_def d Let_def using True by (simp add: AppendUint64_def)
  next
    case False
    with assms(1) have "\<not> (of_int k :: rat) \<le> 0" by simp
    then show ?thesis
      unfolding TimeTag_Append_def d Let_def
      by (simp add: trunc_of_int trunc_def f64_zero del: of_int_le_0_iff)
  qed
qed

lemma TimeTag_Consume_whole:
  assumes "0 \<le> k" and "k < 2 ^ 32"
  shows "TimeTag_Consume (AppendUint64 [] (push_bit 32 (word_of_int k)) @ r)
           = Inr (k * Second, r)"
proof -
  have l: "\<not> length (AppendUint64 [] (push_bit 32 (word_of_int k)) @ r) < 8"
    by (simp add: AppendUint64_def)
  have dr: "drop 8 (AppendUint64 [] (push_bit 32 (word_of_int k)) @ r) = r"
    by (simp add: AppendUint64_def)
  have "k < 2 ^ 53" using assms(2) by simp
  then have fk: "f64 (of_int k) = of_int k"
    using assms(1) by (intro f64_small_int)
  have ns: "f64 (of_int k * 1000000000) = of_int (k * 1000000000)"
    using assms by (rule f64_nanoseconds)
  show ?thesis
    unfolding TimeTag_Consume_def Uint64_AppendUint64 dr
    using l
    by (simp add: Let_def seconds_word [OF assms] f64_zero fk f64_Second ns trunc_of_int
        Time_Add_def epoch_def Second_def del: of_int_mult)
qed

lemma whole_seconds_roundtrip:
  assumes "whole_seconds t"
  shows "TimeTag_Consume (TimeTag_Append t [] @ r) = Inr (t, r)"
proof -
  from assms obtain k where k: "t = k * Second" "0 \<le> k" "k < 2 ^ 32"
    by (rule whole_seconds_split)
  show ?thesis
    unfolding k(1) TimeTag_Append_whole [OF k(2,3)] by (rule TimeTag_Consume_whole [OF k(2,3)])
qed

subsection \<open>Arguments\<close>

lemma String_Consume_padded:
  assumes "0 \<notin> set s" and "length (s @ 0 # p) = 4 * (length s div 4 + 1)"
  shows "String_Consume (s @ 0 # p @ t) = Inr (s, t)"
proof -
  have "String_Consume (s @ 0 # p @ t) =
      Inr (s, drop (min (length (s @ 0 # p)) (length (s @ 0 # p @ t))) ((s @ 0 # p) @ t))"
    using assms String_Consume_first [of s "p @ t"] by simp
  then show ?thesis by simp
qed

lemma String_Consume_Append:
  assumes "0 \<notin> set s" and "ascii s"
  shows "String_Consume (String_Append s [] @ t) = Inr (s, t)"
proof -
  define r where "r = length s mod 4"
  have r4: "r < 4" by (simp add: r_def)
  have n: "length s = 4 * (length s div 4) + r"
    unfolding r_def by (rule mult_div_mod_eq [symmetric])
  have k: "4 - r = Suc (3 - r)" using r4 by simp
  have len: "length (s @ 0 # replicate (3 - r) 0) = 4 * (length s div 4 + 1)"
    using r4 n by simp
  have "String_Append s [] = s @ 0 # replicate (3 - r) 0"
    by (simp add: String_Append_nil append_range_ascii [OF assms(2)] k flip: r_def)
  then show ?thesis
    using String_Consume_padded [OF assms(1) len, of t] by simp
qed

lemma TypeTag_byte:
  "encoderune (TypeTag a) = [ucast (TypeTag a)] \<and> (ucast (TypeTag a) :: byte) < 0x80
   \<and> (ucast (TypeTag a) :: byte) \<noteq> 0 \<and> ucast (ucast (TypeTag a) :: byte) = TypeTag a"
  by (cases a) (simp_all add: encoderune_def)

lemma AppendUint32_length: "length (AppendUint32 [] x) = 4"
  by (simp add: AppendUint32_def)

lemma Append_aligned:
  assumes "4 dvd length b"
  shows "Append a b = b @ Append a []"
proof (cases a)
  case (String x)
  show ?thesis unfolding String Append.simps using assms by (rule String_Append_aligned)
next
  case (TimeTag x)
  show ?thesis unfolding TimeTag Append.simps by (rule TimeTag_Append_append)
qed (simp_all add: AppendUint32_def)

lemma Append_nil_length: "4 dvd length (Append a [])"
proof (cases a)
  case (String x)
  then show ?thesis by (simp add: String_Append_length)
qed (simp_all add: TimeTag_Append_length AppendUint32_length)

lemma Consume_frame:
  assumes "TypeTag r = TypeTag a" and "framed a"
  obtains a' where "TypeTag a' = TypeTag a"
    and "\<And>t. Consume r (Append a [] @ t) = Inr (a', t)"
    and "(case a of TimeTag d \<Rightarrow> True | _ \<Rightarrow> a' = a)"
proof (cases a)
  case (Int32 x)
  with assms obtain y where r: "r = Int32 y" by (cases r) simp_all
  have "Consume r (Append a [] @ t) = Inr (a, t)" for t
    using Uint32_AppendUint32 [of x t] by (simp add: r Int32 AppendUint32_def)
  with that [of a] Int32 show ?thesis by simp
next
  case (Float32 x)
  with assms obtain y where r: "r = Float32 y" by (cases r) simp_all
  have "Consume r (Append a [] @ t) = Inr (a, t)" for t
    using Uint32_AppendUint32 [of x t] by (simp add: r Float32 AppendUint32_def)
  with that [of a] Float32 show ?thesis by simp
next
  case (String x)
  with assms obtain y where r: "r = String y" by (cases r) simp_all
  have "Consume r (Append a [] @ t) = Inr (a, t)" for t
    using assms(2) by (simp add: r String String_Consume_Append)
  with that [of a] String show ?thesis by simp
next
  case (TimeTag x)
  with assms obtain y where r: "r = TimeTag y" by (cases r) simp_all
  obtain d where "\<And>t. TimeTag_Consume (TimeTag_Append x [] @ t) = Inr (d, t)"
    using TimeTag_Consume_append [OF TimeTag_Append_length [of x]] by blast
  then have "Consume r (Append a [] @ t) = Inr (TimeTag d, t)" for t
    by (simp add: r TimeTag)
  with that [of "TimeTag d"] TimeTag show ?thesis by simp
next
  case TrueArg
  with assms have r: "r = TrueArg" by (cases r) simp_all
  with that [of a] TrueArg show ?thesis by simp
next
  case FalseArg
  with assms have r: "r = FalseArg" by (cases r) simp_all
  with that [of a] FalseArg show ?thesis by simp
next
  case Null
  with assms have r: "r = Null" by (cases r) simp_all
  with that [of a] Null show ?thesis by simp
next
  case Impulse
  with assms have r: "r = Impulse" by (cases r) simp_all
  with that [of a] Impulse show ?thesis by simp
qed

lemma Consume_redecoded:
  assumes "TypeTag r = TypeTag a" and "framed a"
  shows "Consume r (Append a [] @ t) = Inr (redecoded a, t)"
proof -
  obtain a' where a': "\<And>t. Consume a (Append a [] @ t) = Inr (a', t)"
    using Consume_frame [OF refl assms(2)] by blast
  obtain a'' where a'': "\<And>t. Consume r (Append a [] @ t) = Inr (a'', t)"
    using Consume_frame [OF assms] by blast
  have same: "Consume r b = Consume a b" for b
    using assms(1) by (cases a; cases r) simp_all
  have "redecoded a = a'"
    using a' [of "[]"] by (simp add: redecoded_def)
  moreover have "a'' = a'"
    using a' [of "[]"] a'' [of "[]"] same by simp
  ultimately show ?thesis using a'' by simp
qed

lemma TypeTag_redecoded: "framed a \<Longrightarrow> TypeTag (redecoded a) = TypeTag a"
proof -
  assume n: "framed a"
  obtain a' where "TypeTag a' = TypeTag a" and "\<And>t. Consume a (Append a [] @ t) = Inr (a', t)"
    using Consume_frame [OF refl n] by blast
  then have "TypeTag a' = TypeTag a" and "Consume a (Append a []) = Inr (a', [])"
    using append_Nil2 [of "Append a []"] by metis+
  then show ?thesis using Consume_redecoded [OF refl n, of "[]"] by simp
qed

lemma redecoded_other:
  assumes "framed a"
  shows "(case a of TimeTag d \<Rightarrow> True | _ \<Rightarrow> redecoded a = a)"
proof -
  obtain a' where c: "\<And>t. Consume a (Append a [] @ t) = Inr (a', t)"
    and o: "(case a of TimeTag d \<Rightarrow> True | _ \<Rightarrow> a' = a)"
    using Consume_frame [OF refl assms] by blast
  have "redecoded a = a'" using c [of "[]"] by (simp add: redecoded_def)
  with o show ?thesis by (cases a) simp_all
qed

lemma redecoded_before_epoch:
  assumes "d \<le> 0"
  shows "redecoded (TimeTag d) = TimeTag epoch"
  using TimeTag_Consume_zeros [of "[]"]
  by (simp add: redecoded_def TimeTag_Append_before_epoch [OF assms])

lemma redecoded_whole_seconds:
  assumes "whole_seconds d"
  shows "redecoded (TimeTag d) = TimeTag d"
  using whole_seconds_roundtrip [OF assms, of "[]"] by (simp add: redecoded_def)

lemma wire_exact_framed: "wire_exact a \<Longrightarrow> framed a"
  by (cases a) simp_all

lemma wire_stable_framed: "wire_stable a \<Longrightarrow> framed a"
  by (cases a) simp_all

lemma wire_exact_stable: "wire_exact a \<Longrightarrow> wire_stable a"
  by (cases a) simp_all

lemma wire_exact_redecoded:
  assumes "wire_exact a"
  shows "redecoded a = a"
proof (cases a)
  case (TimeTag d)
  with assms show ?thesis by (simp add: redecoded_whole_seconds)
qed (use redecoded_other [OF wire_exact_framed [OF assms]] in simp_all)

lemma wire_stable_redecoded:
  assumes "wire_stable a"
  shows "Append (redecoded a) [] = Append a []"
proof (cases a)
  case (TimeTag d)
  with assms consider "whole_seconds d" | "d \<le> 0" by auto
  then show ?thesis
  proof cases
    case 1
    then show ?thesis by (simp add: TimeTag redecoded_whole_seconds)
  next
    case 2
    then show ?thesis
      by (simp add: TimeTag redecoded_before_epoch TimeTag_Append_before_epoch epoch_def)
  qed
qed (use redecoded_other [OF wire_stable_framed [OF assms]] in simp_all)

text \<open>
  C8 (amended): for every argument \<open>v\<close> that is an \<^verbatim>\<open>Int32\<close>, a \<^verbatim>\<open>Float32\<close> (as a bit
  pattern), \<^verbatim>\<open>True\<close>, \<^verbatim>\<open>False\<close>, \<^verbatim>\<open>Null\<close>, \<^verbatim>\<open>Impulse\<close>, a \<^verbatim>\<open>String\<close> of ASCII bytes
  without a NUL byte, or a \<^verbatim>\<open>TimeTag\<close> a whole number of seconds, less than \<open>2^32\<close> of
  them, after the epoch, and for every sequence \<open>t\<close> of trailing bytes, \<^verbatim>\<open>Consume\<close> on
  the encoding of \<open>v\<close> followed by \<open>t\<close> succeeds, yields \<open>v\<close> and leaves exactly \<open>t\<close>. For
  every \<^verbatim>\<open>TimeTag\<close> it succeeds and leaves exactly \<open>t\<close>; the time it yields is the epoch
  for every time at or before the epoch, which the encoder cuts off. The time one
  second and a half after the epoch, which has a fraction, comes back as it went in.
\<close>

theorem Consume_Append_roundtrip:
  "(TypeTag r = TypeTag v \<and> wire_exact v \<longrightarrow> Consume r (Append v [] @ t) = Inr (v, t))
   \<and> (\<exists>d'. Consume (TimeTag x) (Append (TimeTag d) [] @ t) = Inr (TimeTag d', t)
          \<and> (d \<le> 0 \<longrightarrow> d' = epoch))
   \<and> Consume (TimeTag x) (Append (TimeTag (3 * Second div 2)) [] @ t)
       = Inr (TimeTag (3 * Second div 2), t)"
proof (intro conjI impI)
  assume h: "TypeTag r = TypeTag v \<and> wire_exact v"
  then have "framed v" by (simp add: wire_exact_framed)
  with h show "Consume r (Append v [] @ t) = Inr (v, t)"
    using Consume_redecoded [of r v t] by (simp add: wire_exact_redecoded)
next
  have c: "Consume (TimeTag x) (Append (TimeTag d) [] @ t) = Inr (redecoded (TimeTag d), t)"
    by (rule Consume_redecoded) simp_all
  obtain d' where d': "redecoded (TimeTag d) = TimeTag d'"
    using TypeTag_redecoded [of "TimeTag d"] by (cases "redecoded (TimeTag d)") simp_all
  have "d \<le> 0 \<longrightarrow> d' = epoch"
    using d' redecoded_before_epoch [of d] by simp
  with c d' show "\<exists>d'. Consume (TimeTag x) (Append (TimeTag d) [] @ t) = Inr (TimeTag d', t)
      \<and> (d \<le> 0 \<longrightarrow> d' = epoch)"
    by simp
next
  have r: "redecoded (TimeTag (3 * Second div 2)) = TimeTag (3 * Second div 2)"
    by code_simp
  show "Consume (TimeTag x) (Append (TimeTag (3 * Second div 2)) [] @ t)
      = Inr (TimeTag (3 * Second div 2), t)"
    using Consume_redecoded [of "TimeTag x" "TimeTag (3 * Second div 2)" t] by (simp add: r)
qed

theorem Consume_Append_roundtrip_witness:
  "TypeTag (String []) = TypeTag (String (str ''ab''))
   \<and> wire_exact (String (str ''ab''))
   \<and> Consume (String []) (Append (String (str ''ab'')) [] @ [1, 2, 3])
       = Inr (String (str ''ab''), [1, 2, 3])
   \<and> TypeTag (TimeTag zero_Time) = TypeTag (TimeTag (2 * Second))
   \<and> wire_exact (TimeTag (2 * Second))
   \<and> Consume (TimeTag zero_Time) (Append (TimeTag (2 * Second)) [] @ [1])
       = Inr (TimeTag (2 * Second), [1])
   \<and> Consume (TimeTag zero_Time) (Append (TimeTag (- 5)) [] @ [1]) = Inr (TimeTag epoch, [1])"
proof -
  have s: "wire_exact (String (str ''ab''))"
    by (simp add: str_def ascii_def)
  have t: "wire_exact (TimeTag (2 * Second))"
    by (simp add: whole_seconds_def Second_def)
  show ?thesis
    using s t
      Consume_Append_roundtrip [of "String []" "String (str ''ab'')" "[1, 2, 3]" 0 0]
      Consume_Append_roundtrip [of "TimeTag zero_Time" "TimeTag (2 * Second)" "[1]" zero_Time "- 5"]
    by auto
qed

theorem Consume_Append_counterexample:
  "Consume (String []) (Append (String (0 # str ''abcd'')) [] @ [1])
     = Inr (String [], str ''d'' @ [0, 0, 0, 1])
   \<and> Consume (String []) (Append (String (0 # str ''abcd'')) [] @ [1])
     \<noteq> Inr (String (0 # str ''abcd''), [1])
   \<and> Consume (String []) (Append (String [0xC3, 0xA9]) [] @ [1])
     = Inr (String [0xC3], [1])
   \<and> Consume (String []) (Append (String [0xC3, 0xA9]) [] @ [1])
     \<noteq> Inr (String [0xC3, 0xA9], [1])
   \<and> Consume (TimeTag zero_Time) (Append (TimeTag (- 1000000000)) [] @ [1])
     = Inr (TimeTag epoch, [1])
   \<and> Consume (TimeTag zero_Time) (Append (TimeTag (- 1000000000)) [] @ [1])
     \<noteq> Inr (TimeTag (- 1000000000), [1])
   \<and> Consume (TimeTag zero_Time) (Append (TimeTag 1) [] @ [1]) = Inr (TimeTag epoch, [1])
   \<and> Consume (TimeTag zero_Time) (Append (TimeTag 1) [] @ [1]) \<noteq> Inr (TimeTag 1, [1])"
  by code_simp

subsection \<open>Messages\<close>

lemma typeTag_foldl: "foldl (\<lambda>typeTag a. typeTag @ [TypeTag a]) tt args = tt @ map TypeTag args"
  by (induction args arbitrary: tt) simp_all

lemma slicerunetostring_TypeTag:
  "slicerunetostring (map TypeTag args) = map (\<lambda>a. ucast (TypeTag a)) args"
  by (induction args) (simp_all add: slicerunetostring_def TypeTag_byte)

lemma slicerunetostring_typeTag:
  "slicerunetostring (of_char CHR '','' # map TypeTag args)
     = of_char CHR '','' # map (\<lambda>a. ucast (TypeTag a)) args"
proof -
  have "slicerunetostring (c # rs) = encoderune c @ slicerunetostring rs" for c rs
    by (simp add: slicerunetostring_def)
  moreover have "encoderune (of_char CHR '','') = [of_char CHR '','']"
    by (simp add: encoderune_def)
  ultimately show ?thesis
    by (simp add: slicerunetostring_TypeTag)
qed

lemma foldl_Append:
  assumes "4 dvd length b"
  shows "foldl (\<lambda>b a. Append a b) b args = b @ concat (map (\<lambda>a. Append a []) args)"
  using assms
proof (induction args arbitrary: b)
  case Nil
  show ?case by simp
next
  case (Cons a args)
  have e: "Append a b = b @ Append a []"
    using Cons.prems by (rule Append_aligned)
  have "4 dvd length (b @ Append a [])"
    using Cons.prems Append_nil_length [of a] by simp
  then have "foldl (\<lambda>b a. Append a b) (b @ Append a []) args
      = (b @ Append a []) @ concat (map (\<lambda>a. Append a []) args)"
    by (rule Cons.IH)
  then show ?case by (simp add: e)
qed

lemma Message_Append_nil:
  "Message_Append m [] =
     String_Append (Pattern m) []
     @ String_Append (of_char CHR '','' # map (\<lambda>a. ucast (TypeTag a)) (Arguments m)) []
     @ concat (map (\<lambda>a. Append a []) (Arguments m))"
proof -
  define A where "A = String_Append (Pattern m) []"
  define tt :: "byte list"
    where "tt = of_char CHR '','' # map (\<lambda>a. ucast (TypeTag a)) (Arguments m)"
  have a: "4 dvd length A" unfolding A_def by (rule String_Append_length)
  have t: "String_Append tt A = A @ String_Append tt []"
    using a by (rule String_Append_aligned)
  have "4 dvd length (A @ String_Append tt [])"
    using a String_Append_length [of tt "[]"] by simp
  then have f: "foldl (\<lambda>b a. Append a b) (A @ String_Append tt []) (Arguments m)
      = (A @ String_Append tt []) @ concat (map (\<lambda>a. Append a []) (Arguments m))"
    by (rule foldl_Append)
  have s: "slicerunetostring ([of_char CHR '',''] @ map TypeTag (Arguments m)) = tt"
    unfolding tt_def using slicerunetostring_typeTag [of "Arguments m"] by simp
  have "Message_Append m [] = foldl (\<lambda>b a. Append a b) (String_Append tt A) (Arguments m)"
    unfolding Message_Append_def Let_def typeTag_foldl s A_def ..
  then show ?thesis
    unfolding t f by (simp add: A_def tt_def)
qed

lemma newByTypeTag_TypeTag:
  obtains r where "newByTypeTag (TypeTag a) = Some r" and "TypeTag r = TypeTag a"
  by (cases a) (simp_all add: newByTypeTag_def)

lemma parseArguments_Nil: "parseArguments i [] buf = Inr []"
  by (simp add: parseArguments.simps)

lemma parseArguments_Cons:
  assumes "c < 0x80"
  shows "parseArguments i (c # tt) buf =
     (case newByTypeTag (ucast c) of
        None \<Rightarrow> Inl (UnknownTypeTag (ucast c))
      | Some a \<Rightarrow>
          (case Consume a buf of
             Inl err \<Rightarrow> Inl (ReadingArgument i (ucast c) err)
           | Inr (a', buf') \<Rightarrow>
               (case parseArguments (i + 1) tt buf' of
                  Inl err \<Rightarrow> Inl err
                | Inr args \<Rightarrow> Inr (a' # args))))"
  by (subst parseArguments.simps)
     (simp add: DecodeRuneInString_ascii [OF assms] Let_def split: option.split sum.split)

lemma parseArguments_encoded:
  assumes "list_all framed args"
  shows "parseArguments i (map (\<lambda>a. ucast (TypeTag a)) args)
           (concat (map (\<lambda>a. Append a []) args) @ t)
           = Inr (map redecoded args)"
  using assms
proof (induction args arbitrary: i)
  case Nil
  show ?case by (simp add: parseArguments_Nil)
next
  case (Cons a args)
  obtain r where r: "newByTypeTag (TypeTag a) = Some r" "TypeTag r = TypeTag a"
    by (rule newByTypeTag_TypeTag)
  have n: "framed a" and ns: "list_all framed args"
    using Cons.prems by simp_all
  have c: "Consume r (Append a [] @ concat (map (\<lambda>a. Append a []) args) @ t)
      = Inr (redecoded a, concat (map (\<lambda>a. Append a []) args) @ t)"
    using r(2) n by (rule Consume_redecoded)
  have b: "(ucast (TypeTag a) :: byte) < 0x80" and u: "ucast (ucast (TypeTag a) :: byte) = TypeTag a"
    using TypeTag_byte [of a] by simp_all
  show ?case
    by (simp add: parseArguments_Cons [OF b] u r(1) c Cons.IH [OF ns])
qed

lemma typeTag_framed:
  "0 \<notin> set (of_char CHR '','' # map (\<lambda>a. ucast (TypeTag a) :: byte) args)
   \<and> ascii (of_char CHR '','' # map (\<lambda>a. ucast (TypeTag a) :: byte) args)"
proof -
  have "0 \<notin> set (map (\<lambda>a. ucast (TypeTag a) :: byte) args)
      \<and> ascii (map (\<lambda>a. ucast (TypeTag a) :: byte) args)"
    using TypeTag_byte by (induction args) (simp_all add: ascii_def)
  then show ?thesis by (simp add: ascii_def)
qed

lemma ParseMessage_encoded:
  assumes "0 \<notin> set (Pattern m)" and "ascii (Pattern m)" and "list_all framed (Arguments m)"
  shows "ParseMessage (Message_Append m [])
           = Inr \<lparr>Pattern = Pattern m, Arguments = map redecoded (Arguments m)\<rparr>"
proof -
  define tt :: "byte list"
    where "tt = of_char CHR '','' # map (\<lambda>a. ucast (TypeTag a)) (Arguments m)"
  define E where "E = concat (map (\<lambda>a. Append a []) (Arguments m))"
  have tt0: "0 \<notin> set tt" and tta: "ascii tt"
    unfolding tt_def using typeTag_framed [of "Arguments m"] by blast+
  have a: "String_Consume (String_Append (Pattern m) [] @ String_Append tt [] @ E)
      = Inr (Pattern m, String_Append tt [] @ E)"
    using assms(1,2) by (rule String_Consume_Append)
  have b: "String_Consume (String_Append tt [] @ E) = Inr (tt, E)"
    using tt0 tta by (rule String_Consume_Append)
  have c: "parseArguments 0 (tl tt) E = Inr (map redecoded (Arguments m))"
    using parseArguments_encoded [OF assms(3), of 0 "[]"] by (simp add: tt_def E_def)
  have h: "\<not> (length tt = 0 \<or> hd tt \<noteq> of_char CHR '','')"
    by (simp add: tt_def)
  have "Message_Append m [] = String_Append (Pattern m) [] @ String_Append tt [] @ E"
    unfolding tt_def E_def by (rule Message_Append_nil)
  then show ?thesis
    unfolding ParseMessage_def by (simp only: a b c h sum.case prod.case if_False)
qed

lemma concat_Append_cong:
  assumes "list_all wire_stable args"
  shows "concat (map (\<lambda>a. Append a []) (map redecoded args))
           = concat (map (\<lambda>a. Append a []) args)"
  using assms by (induction args) (simp_all add: wire_stable_redecoded)

lemma map_TypeTag_redecoded:
  assumes "list_all framed args"
  shows "map (\<lambda>a. ucast (TypeTag a) :: byte) (map redecoded args)
           = map (\<lambda>a. ucast (TypeTag a)) args"
  using assms by (induction args) (simp_all add: TypeTag_redecoded)

lemma wire_exact_map: "list_all wire_exact args \<Longrightarrow> map redecoded args = args"
  by (induction args) (simp_all add: wire_exact_redecoded)

lemma wire_exact_all_framed: "list_all wire_exact args \<Longrightarrow> list_all framed args"
  by (induction args) (simp_all add: wire_exact_framed)

lemma wire_stable_all_framed: "list_all wire_stable args \<Longrightarrow> list_all framed args"
  by (induction args) (simp_all add: wire_stable_framed)

text \<open>
  C3 (amended): for every message whose address pattern is of ASCII bytes without a
  NUL byte and whose arguments are each an \<^verbatim>\<open>Int32\<close>, a \<^verbatim>\<open>Float32\<close> (as a bit
  pattern), a marker, a \<^verbatim>\<open>String\<close> of ASCII bytes without a NUL byte or a \<^verbatim>\<open>TimeTag\<close>
  a whole number of seconds, less than \<open>2^32\<close> of them, after the epoch,
  \<^verbatim>\<open>ParseMessage\<close> on its encoding succeeds and returns the message. When the
  arguments may also be \<^verbatim>\<open>TimeTag\<close>s at or before the epoch, \<^verbatim>\<open>ParseMessage\<close>
  succeeds and encoding its result gives the same bytes again. A message whose one
  argument is the time one second and a half after the epoch, which has a fraction,
  comes back as it went in.
\<close>

theorem ParseMessage_Append_roundtrip:
  "(0 \<notin> set (Pattern m) \<and> ascii (Pattern m) \<and> list_all wire_exact (Arguments m) \<longrightarrow>
      ParseMessage (Message_Append m []) = Inr m)
   \<and> (0 \<notin> set (Pattern m) \<and> ascii (Pattern m) \<and> list_all wire_stable (Arguments m) \<longrightarrow>
      (\<exists>m'. ParseMessage (Message_Append m []) = Inr m'
         \<and> Message_Append m' [] = Message_Append m []))
   \<and> (0 \<notin> set p \<and> ascii p \<longrightarrow>
      ParseMessage (Message_Append \<lparr>Pattern = p, Arguments = [TimeTag (3 * Second div 2)]\<rparr> [])
        = Inr \<lparr>Pattern = p, Arguments = [TimeTag (3 * Second div 2)]\<rparr>)"
proof (intro conjI impI)
  assume h: "0 \<notin> set (Pattern m) \<and> ascii (Pattern m) \<and> list_all wire_exact (Arguments m)"
  then have n: "list_all framed (Arguments m)"
    by (simp add: wire_exact_all_framed)
  have "map redecoded (Arguments m) = Arguments m"
    using h by (simp add: wire_exact_map)
  then show "ParseMessage (Message_Append m []) = Inr m"
    using h ParseMessage_encoded [OF _ _ n] by simp
next
  assume h: "0 \<notin> set (Pattern m) \<and> ascii (Pattern m) \<and> list_all wire_stable (Arguments m)"
  then have n: "list_all framed (Arguments m)"
    by (simp add: wire_stable_all_framed)
  define m' where "m' = \<lparr>Pattern = Pattern m, Arguments = map redecoded (Arguments m)\<rparr>"
  have p: "ParseMessage (Message_Append m []) = Inr m'"
    using h ParseMessage_encoded [OF _ _ n] by (simp add: m'_def)
  have tt: "map (\<lambda>a. ucast (TypeTag a) :: byte) (map redecoded (Arguments m))
      = map (\<lambda>a. ucast (TypeTag a)) (Arguments m)"
    using n by (rule map_TypeTag_redecoded)
  have cc: "concat (map (\<lambda>a. Append a []) (map redecoded (Arguments m)))
      = concat (map (\<lambda>a. Append a []) (Arguments m))"
    using h by (intro concat_Append_cong) simp
  have "Message_Append m' [] = Message_Append m []"
    unfolding Message_Append_nil
    by (simp add: m'_def tt cc del: map_map)
  with p show "\<exists>m'. ParseMessage (Message_Append m []) = Inr m'
      \<and> Message_Append m' [] = Message_Append m []"
    by blast
next
  assume h: "0 \<notin> set p \<and> ascii p"
  have r: "redecoded (TimeTag (3 * Second div 2)) = TimeTag (3 * Second div 2)"
    by code_simp
  show "ParseMessage (Message_Append \<lparr>Pattern = p, Arguments = [TimeTag (3 * Second div 2)]\<rparr> [])
      = Inr \<lparr>Pattern = p, Arguments = [TimeTag (3 * Second div 2)]\<rparr>"
    using h ParseMessage_encoded [of "\<lparr>Pattern = p, Arguments = [TimeTag (3 * Second div 2)]\<rparr>"]
    by (simp add: r)
qed

theorem ParseMessage_Append_roundtrip_witness:
  "0 \<notin> set (str ''/hi'') \<and> ascii (str ''/hi'')
   \<and> list_all wire_exact [Int32 7, String (str ''abc''), TimeTag (2 * Second), TrueArg, Float32 1]
   \<and> ParseMessage (Message_Append
        \<lparr>Pattern = str ''/hi'',
         Arguments = [Int32 7, String (str ''abc''), TimeTag (2 * Second), TrueArg, Float32 1]\<rparr> [])
       = Inr \<lparr>Pattern = str ''/hi'',
              Arguments = [Int32 7, String (str ''abc''), TimeTag (2 * Second), TrueArg, Float32 1]\<rparr>
   \<and> list_all wire_stable [TimeTag (- 5), Null]
   \<and> (\<exists>m'. ParseMessage (Message_Append \<lparr>Pattern = str ''/hi'', Arguments = [TimeTag (- 5), Null]\<rparr> [])
               = Inr m'
         \<and> Message_Append m' []
             = Message_Append \<lparr>Pattern = str ''/hi'', Arguments = [TimeTag (- 5), Null]\<rparr> [])
   \<and> ParseMessage (Message_Append
        \<lparr>Pattern = str ''/hi'', Arguments = [TimeTag (3 * Second div 2)]\<rparr> [])
       = Inr \<lparr>Pattern = str ''/hi'', Arguments = [TimeTag (3 * Second div 2)]\<rparr>"
proof -
  have p: "0 \<notin> set (str ''/hi'') \<and> ascii (str ''/hi'')"
    by (simp add: str_def ascii_def)
  have r: "list_all wire_exact [Int32 7, String (str ''abc''), TimeTag (2 * Second), TrueArg, Float32 1]"
    by (simp add: str_def ascii_def whole_seconds_def Second_def)
  have e: "list_all wire_stable [TimeTag (- 5), Null]"
    by simp
  show ?thesis
    using p r e
      ParseMessage_Append_roundtrip [of "\<lparr>Pattern = str ''/hi'',
         Arguments = [Int32 7, String (str ''abc''), TimeTag (2 * Second), TrueArg, Float32 1]\<rparr>"
         "str ''/hi''"]
      ParseMessage_Append_roundtrip [of
        "\<lparr>Pattern = str ''/hi'', Arguments = [TimeTag (- 5), Null]\<rparr>" "str ''/hi''"]
    by simp
qed

theorem ParseMessage_Append_counterexample:
  "ParseMessage (Message_Append \<lparr>Pattern = str ''a'' @ 0 # str ''b'', Arguments = []\<rparr> [])
     = Inr \<lparr>Pattern = str ''a'', Arguments = []\<rparr>
   \<and> Message_Append \<lparr>Pattern = str ''a'', Arguments = []\<rparr> []
     \<noteq> Message_Append \<lparr>Pattern = str ''a'' @ 0 # str ''b'', Arguments = []\<rparr> []
   \<and> ParseMessage (Message_Append \<lparr>Pattern = 0 # str ''abcd'', Arguments = []\<rparr> [])
     = Inl (InvalidTypeTagString (str ''d''))
   \<and> ParseMessage (Message_Append \<lparr>Pattern = str ''/'' @ [0xC3, 0xA9], Arguments = []\<rparr> [])
     = Inr \<lparr>Pattern = str ''/'' @ [0xC3], Arguments = []\<rparr>
   \<and> ParseMessage (Message_Append \<lparr>Pattern = str ''/t'', Arguments = [TimeTag 1]\<rparr> [])
     = Inr \<lparr>Pattern = str ''/t'', Arguments = [TimeTag epoch]\<rparr>
   \<and> Message_Append \<lparr>Pattern = str ''/t'', Arguments = [TimeTag epoch]\<rparr> []
     \<noteq> Message_Append \<lparr>Pattern = str ''/t'', Arguments = [TimeTag 1]\<rparr> []"
  by code_simp

end
